theory Spec2Isabelle
  imports Complex_Main "HOL-Library.Log_Nat"
begin

section \<open>JavaScript Numbers: IEEE 754 binary64 over the rationals\<close>

text \<open>
  A Number is NaN, an infinity, negative zero, or a finite value; \<open>Fin 0\<close> is positive zero.
  Every finite value the operations below return is a binary64 value: the exact result of
  the operation, rounded to the nearest such value, ties to the even significand.
\<close>

datatype jsnum = NaN | PInf | NInf | NegZero | Fin rat

datatype js_error = RangeError | TypeError

definition pow2 :: "int \<Rightarrow> rat" where
  "pow2 e = 2 powi e"

definition ilog2 :: "rat \<Rightarrow> int" where
  \<comment> \<open>for \<open>0 < x\<close>: the exponent \<open>e\<close> with \<open>2^e \<le> x < 2^(e+1)\<close>\<close>
  "ilog2 x = (let (p, q) = quotient_of x; d = bitlen p - bitlen q
              in if pow2 d \<le> x then d else d - 1)"

definition round_half_even :: "rat \<Rightarrow> int" where
  "round_half_even x = (let f = \<lfloor>x\<rfloor>; d = x - of_int f
     in if d < 1 / 2 then f else if 1 / 2 < d then f + 1
        else if even f then f else f + 1)"

definition ulp_of :: "rat \<Rightarrow> rat" where
  \<comment> \<open>the spacing of binary64 values around a magnitude: 52 bits below its exponent, and
      the subnormal spacing \<open>2^-1074\<close> below \<open>2^-1022\<close>\<close>
  "ulp_of a = pow2 (max (ilog2 a) (- 1022) - 52)"

definition round_mag :: "rat \<Rightarrow> rat" where
  "round_mag a = (if a \<le> 0 then 0 else of_int (round_half_even (a / ulp_of a)) * ulp_of a)"

definition mk_double :: "bool \<Rightarrow> rat \<Rightarrow> jsnum" where
  \<comment> \<open>sign and exact magnitude to the Number: overflow to an infinity, underflow to a signed zero\<close>
  "mk_double neg a = (let r = round_mag a
     in if 2 ^ 1024 \<le> r then (if neg then NInf else PInf)
        else if r = 0 then (if neg then NegZero else Fin 0)
        else Fin (if neg then - r else r))"

fun is_nan :: "jsnum \<Rightarrow> bool" where
  "is_nan NaN = True"
| "is_nan _ = False"

fun is_inf :: "jsnum \<Rightarrow> bool" where
  "is_inf PInf = True"
| "is_inf NInf = True"
| "is_inf _ = False"

fun num_val :: "jsnum \<Rightarrow> rat" where
  "num_val (Fin r) = r"
| "num_val _ = 0"

fun is_zero :: "jsnum \<Rightarrow> bool" where
  "is_zero NegZero = True"
| "is_zero (Fin r) = (r = 0)"
| "is_zero _ = False"

fun sign_bit :: "jsnum \<Rightarrow> bool" where
  "sign_bit NInf = True"
| "sign_bit NegZero = True"
| "sign_bit (Fin r) = (r < 0)"
| "sign_bit _ = False"

definition js_inf :: "bool \<Rightarrow> jsnum" where
  "js_inf neg = (if neg then NInf else PInf)"

definition js_zero :: "bool \<Rightarrow> jsnum" where
  "js_zero neg = (if neg then NegZero else Fin 0)"

definition js_mul :: "jsnum \<Rightarrow> jsnum \<Rightarrow> jsnum" where
  "js_mul x y =
     (if is_nan x \<or> is_nan y then NaN
      else if is_inf x \<or> is_inf y then
        (if is_zero x \<or> is_zero y then NaN else js_inf (sign_bit x \<noteq> sign_bit y))
      else mk_double (sign_bit x \<noteq> sign_bit y) (\<bar>num_val x\<bar> * \<bar>num_val y\<bar>))"

definition js_div :: "jsnum \<Rightarrow> jsnum \<Rightarrow> jsnum" where
  "js_div x y =
     (if is_nan x \<or> is_nan y then NaN
      else if is_inf x then (if is_inf y then NaN else js_inf (sign_bit x \<noteq> sign_bit y))
      else if is_inf y then js_zero (sign_bit x \<noteq> sign_bit y)
      else if is_zero y then (if is_zero x then NaN else js_inf (sign_bit x \<noteq> sign_bit y))
      else mk_double (sign_bit x \<noteq> sign_bit y) (\<bar>num_val x\<bar> / \<bar>num_val y\<bar>))"

definition js_add :: "jsnum \<Rightarrow> jsnum \<Rightarrow> jsnum" where
  "js_add x y =
     (if is_nan x \<or> is_nan y then NaN
      else if is_inf x then (if is_inf y \<and> x \<noteq> y then NaN else x)
      else if is_inf y then y
      else let s = num_val x + num_val y
           in if s = 0 then (if x = NegZero \<and> y = NegZero then NegZero else Fin 0)
              else mk_double (s < 0) \<bar>s\<bar>)"

fun js_neg :: "jsnum \<Rightarrow> jsnum" where
  "js_neg NaN = NaN"
| "js_neg PInf = NInf"
| "js_neg NInf = PInf"
| "js_neg NegZero = Fin 0"
| "js_neg (Fin r) = (if r = 0 then NegZero else Fin (- r))"

definition js_sub :: "jsnum \<Rightarrow> jsnum \<Rightarrow> jsnum" where
  "js_sub x y = js_add x (js_neg y)"

fun js_gt :: "jsnum \<Rightarrow> jsnum \<Rightarrow> bool" where
  "js_gt NaN _ = False"
| "js_gt _ NaN = False"
| "js_gt _ PInf = False"
| "js_gt PInf _ = True"
| "js_gt NInf _ = False"
| "js_gt _ NInf = True"
| "js_gt x y = (num_val y < num_val x)"

definition js_strict_eq :: "jsnum \<Rightarrow> jsnum \<Rightarrow> bool" where
  \<comment> \<open>\<open>===\<close> on Numbers: NaN equals nothing, the two zeros are equal\<close>
  "js_strict_eq x y = (\<not> is_nan x \<and> \<not> is_nan y \<and>
     (x = y \<or> (is_zero x \<and> is_zero y)))"

definition truthy :: "jsnum \<Rightarrow> bool" where
  "truthy x = (\<not> is_nan x \<and> \<not> is_zero x)"

definition Number_of_BigInt :: "int \<Rightarrow> jsnum" where
  "Number_of_BigInt i = mk_double (i < 0) \<bar>of_int i\<bar>"

definition bigint_div :: "int \<Rightarrow> int \<Rightarrow> js_error + int" where
  \<comment> \<open>BigInt \<open>/\<close>: truncates towards zero, throws RangeError on a zero divisor\<close>
  "bigint_div a b = (if b = 0 then Inl RangeError else Inr (sgn a * sgn b * (\<bar>a\<bar> div \<bar>b\<bar>)))"

section \<open>Game constants\<close>

definition TOTAL_NUMBERS :: int where "TOTAL_NUMBERS = 80"
definition NUMBERS_DRAWN :: int where "NUMBERS_DRAWN = 20"
definition NUMBERS_NOT_DRAWN :: int where "NUMBERS_NOT_DRAWN = TOTAL_NUMBERS - NUMBERS_DRAWN"

section \<open>Math utilities\<close>

text \<open>
  The arguments of \<open>binomial\<close> and \<open>calculateProbability\<close> are integer-valued Numbers and are
  modelled as \<open>int\<close>; \<open>BigInt(n)\<close> of such a Number is that integer, and the comparisons and
  differences of the two functions are those of the integers (a difference that is used, not
  only compared, is between integers within a factor two of each other or below \<open>2^53\<close>, where
  the subtraction of Numbers is exact). The BigInt loops of the source are the recursive
  functions below, with the loop variable as first argument; \<open>Number(...)\<close> of the quotient
  is the one rounding of \<open>binomial\<close>.
\<close>

function factorial_loop :: "int \<Rightarrow> int \<Rightarrow> int \<Rightarrow> int" where
  "factorial_loop i n result =
     (if i \<le> n then factorial_loop (i + 1) n (result * i) else result)"
  by pat_completeness auto
termination
  by (relation "measure (\<lambda>(i, n, result). nat (n + 1 - i))") auto

definition factorial :: "int \<Rightarrow> int" where
  "factorial n = (if n \<le> 1 then 1 else factorial_loop 2 n 1)"

function numerator_loop :: "int \<Rightarrow> int \<Rightarrow> int \<Rightarrow> int \<Rightarrow> int" where
  "numerator_loop i kBig nBig numerator =
     (if i < kBig then numerator_loop (i + 1) kBig nBig (numerator * (nBig - i))
      else numerator)"
  by pat_completeness auto
termination
  by (relation "measure (\<lambda>(i, kBig, nBig, numerator). nat (kBig - i))") auto

definition binomial_js :: "int \<Rightarrow> int \<Rightarrow> js_error + jsnum" where
  "binomial_js n k =
     (if k < 0 \<or> k > n then Inr (Fin 0)
      else if k = 0 \<or> k = n then Inr (Fin 1)
      else let k' = (if k > n - k then n - k else k);
               nBig = n; kBig = k';
               numerator = numerator_loop 0 kBig nBig 1;
               denominator = factorial kBig
           in case bigint_div numerator denominator of
                Inl e \<Rightarrow> Inl e
              | Inr q \<Rightarrow> Inr (Number_of_BigInt q))"

definition calculateProbability_with ::
  "(int \<Rightarrow> int \<Rightarrow> js_error + jsnum) \<Rightarrow> int \<Rightarrow> int \<Rightarrow> js_error + jsnum" where
  \<comment> \<open>the body of \<open>calculateProbability\<close>, over the function it calls for the three coefficients\<close>
  "calculateProbability_with bin picks hits =
     (if hits > picks \<or> hits > NUMBERS_DRAWN \<or> picks - hits > NUMBERS_NOT_DRAWN
      then Inr (Fin 0)
      else case bin NUMBERS_DRAWN hits of Inl e \<Rightarrow> Inl e | Inr waysToHit \<Rightarrow>
        (case bin NUMBERS_NOT_DRAWN (picks - hits) of Inl e \<Rightarrow> Inl e | Inr waysToMiss \<Rightarrow>
          (case bin TOTAL_NUMBERS picks of Inl e \<Rightarrow> Inl e | Inr totalWays \<Rightarrow>
             Inr (js_div (js_mul waysToHit waysToMiss) totalWays))))"

definition calculateProbability :: "int \<Rightarrow> int \<Rightarrow> js_error + jsnum" where
  "calculateProbability = calculateProbability_with binomial_js"

section \<open>Number to string conversions of the platform\<close>

text \<open>
  \<open>toFixed\<close> follows ECMA-262 (Number.prototype.toFixed): it rounds the exact value of the
  Number, a tie to the larger magnitude. \<open>toLocaleString\<close> is the number formatter of the
  engine for the locale en-US with the option \<open>maximumFractionDigits\<close>: it starts from the
  shortest decimal that converts back to the Number (the digits of Number::toString), rounds
  that decimal to the fraction digits, a tie to the larger magnitude, and prints the integer
  part in groups of three and the fraction without trailing zeros. So the Number nearest to
  1.005 prints as 1.01 with two fraction digits, where \<open>toFixed(2)\<close> gives 1.00. Digits are
  computed on \<open>int\<close>, as the quotients of the analysis reach millions of hundredths.
\<close>

definition digit_char :: "int \<Rightarrow> char" where
  "digit_char d = ''0123456789'' ! nat d"

function decimal_digits :: "int \<Rightarrow> string" where
  "decimal_digits n =
     (if n < 10 then [digit_char n] else decimal_digits (n div 10) @ [digit_char (n mod 10)])"
  by pat_completeness auto
termination
  by (relation "measure nat") auto

definition pad_left :: "nat \<Rightarrow> string \<Rightarrow> string" where
  "pad_left w s = replicate (w - length s) CHR ''0'' @ s"

definition strip_trailing_zeros :: "string \<Rightarrow> string" where
  "strip_trailing_zeros s = rev (dropWhile (\<lambda>c. c = CHR ''0'') (rev s))"

function shortest_decimal :: "int \<Rightarrow> nat \<Rightarrow> nat \<Rightarrow> int" where
  \<comment> \<open>Number::toString: the decimal with the fewest significant digits, from \<open>k\<close> digits on,
      that converts back to the Number of the integer \<open>N\<close> of \<open>n0\<close> digits; of two such
      the nearer one, of two equally near the even one\<close>
  "shortest_decimal N n0 k =
     (if n0 \<le> k then N
      else let scale = 10 ^ (n0 - k);
               lo = (N div scale) * scale;
               hi = lo + scale;
               ok_lo = (Number_of_BigInt lo = Number_of_BigInt N);
               ok_hi = (Number_of_BigInt hi = Number_of_BigInt N)
           in if ok_lo \<and> ok_hi then
                (if N - lo < hi - N then lo
                 else if hi - N < N - lo then hi
                 else if even (N div scale) then lo else hi)
              else if ok_lo then lo
              else if ok_hi then hi
              else shortest_decimal N n0 (k + 1))"
  by pat_completeness auto
termination
  by (relation "measure (\<lambda>(N, n0, k). n0 - k)") auto

definition toString_exponential :: "rat \<Rightarrow> string" where
  \<comment> \<open>Number::toString of a finite Number from \<open>10^21\<close> on (such a Number is an integer):
      the shortest digits, a point after the first, and the decimal exponent\<close>
  "toString_exponential r =
     (let N = \<lfloor>r\<rfloor>;
          ds = decimal_digits (shortest_decimal N (length (decimal_digits N)) 1);
          sig = strip_trailing_zeros ds
      in (if length sig \<le> 1 then sig else hd sig # CHR ''.'' # tl sig)
         @ ''e+'' @ decimal_digits (int (length ds) - 1))"

definition fixed_digits :: "nat \<Rightarrow> int \<Rightarrow> string" where
  \<comment> \<open>the digits of \<open>n\<close> with a point before the last \<open>f\<close> of them, zeros added on the left\<close>
  "fixed_digits f n =
     (let m = decimal_digits n
      in if f = 0 then m
         else let m' = (if length m \<le> f then pad_left (f + 1) m else m);
                  k = length m'
              in take (k - f) m' @ ''.'' @ drop (k - f) m')"

definition toFixed :: "nat \<Rightarrow> jsnum \<Rightarrow> string" where
  \<comment> \<open>\<open>x.toFixed(f)\<close>, for \<open>f\<close> in 0..100 (the source passes 2 and 6)\<close>
  "toFixed f x =
     (case x of
        NaN \<Rightarrow> ''NaN''
      | PInf \<Rightarrow> ''Infinity''
      | NInf \<Rightarrow> ''-Infinity''
      | NegZero \<Rightarrow> fixed_digits f 0
      | Fin r \<Rightarrow>
          (if r < 0 then ''-'' else []) @
          (if 10 ^ 21 \<le> \<bar>r\<bar> then toString_exponential \<bar>r\<bar>
           else fixed_digits f \<lfloor>\<bar>r\<bar> * 10 ^ f + 1 / 2\<rfloor>))"

function group_thousands :: "string \<Rightarrow> string" where
  "group_thousands s =
     (if length s \<le> 3 then s
      else group_thousands (take (length s - 3) s) @ '','' @ drop (length s - 3) s)"
  by pat_completeness auto
termination
  by (relation "measure length") auto

definition infinity_sign :: string where
  \<comment> \<open>the UTF-8 bytes of U+221E\<close>
  "infinity_sign = [CHR 0xE2, CHR 0x88, CHR 0x9E]"

function scale_up :: "rat \<Rightarrow> nat \<Rightarrow> nat" where
  \<comment> \<open>for \<open>0 < x < 1\<close>: the least \<open>m\<close>, from the given one on, with \<open>1 \<le> x * 10^m\<close>; a finite
      Number is no smaller than \<open>2^-1074\<close>, so the bound 400 is never reached\<close>
  "scale_up x m = (if 1 \<le> x * 10 ^ m \<or> 400 \<le> m then m else scale_up x (Suc m))"
  by pat_completeness auto
termination
  by (relation "measure (\<lambda>(x, m). 400 - m)") auto

definition decimal_exponent :: "rat \<Rightarrow> int" where
  \<comment> \<open>for \<open>0 < x\<close>: the \<open>e\<close> with \<open>10^e \<le> x < 10^(e+1)\<close>\<close>
  "decimal_exponent x =
     (if 1 \<le> x then int (length (decimal_digits \<lfloor>x\<rfloor>)) - 1 else - int (scale_up x 1))"

function shortest_from :: "rat \<Rightarrow> int \<Rightarrow> nat \<Rightarrow> rat" where
  \<comment> \<open>the decimal with the fewest significant digits, from \<open>k\<close> digits on, that converts back
      to the Number \<open>x\<close> of decimal exponent \<open>e\<close>; of two such the nearer one, of two equally
      near the even one. Seventeen digits identify every Number, so the last case (the exact
      value) is not reached\<close>
  "shortest_from x e k =
     (if 17 < k then x
      else let unit = 10 powi (e - int k + 1);
               lo = of_int \<lfloor>x / unit\<rfloor> * unit;
               hi = lo + unit;
               ok_lo = (mk_double False lo = Fin x);
               ok_hi = (mk_double False hi = Fin x)
           in if ok_lo \<and> ok_hi then
                (if x - lo < hi - x then lo
                 else if hi - x < x - lo then hi
                 else if even \<lfloor>x / unit\<rfloor> then lo else hi)
              else if ok_lo then lo
              else if ok_hi then hi
              else shortest_from x e (Suc k))"
  by pat_completeness auto
termination
  by (relation "measure (\<lambda>(x, e, k). 18 - k)") auto

definition shortest_value :: "rat \<Rightarrow> rat" where
  \<comment> \<open>the shortest decimal of the magnitude of a finite Number, the digits that
      Number::toString prints and that the number formatter starts from\<close>
  "shortest_value x = (if x = 0 then 0 else shortest_from x (decimal_exponent x) 1)"

definition fraction_text :: "nat \<Rightarrow> int \<Rightarrow> string" where
  \<comment> \<open>the fraction of \<open>m\<close> units of \<open>10^-f\<close>: nothing when it is zero, else a point and the
      \<open>f\<close> digits without their trailing zeros\<close>
  "fraction_text f m =
     (let frac = strip_trailing_zeros (pad_left f (decimal_digits m))
      in if f = 0 \<or> frac = [] then [] else ''.'' @ frac)"

definition toLocaleString_en_US :: "nat \<Rightarrow> jsnum \<Rightarrow> string" where
  \<comment> \<open>\<open>x.toLocaleString('en-US', { maximumFractionDigits: f })\<close>\<close>
  "toLocaleString_en_US f x =
     (case x of
        NaN \<Rightarrow> ''NaN''
      | PInf \<Rightarrow> infinity_sign
      | NInf \<Rightarrow> ''-'' @ infinity_sign
      | NegZero \<Rightarrow> ''-0''
      | Fin r \<Rightarrow>
          (let n = \<lfloor>shortest_value \<bar>r\<bar> * 10 ^ f + 1 / 2\<rfloor>
           in (if r < 0 then ''-'' else []) @
              group_thousands (decimal_digits (n div 10 ^ f)) @
              fraction_text f (n mod 10 ^ f)))"

definition probabilityToOdds :: "jsnum \<Rightarrow> string" where
  "probabilityToOdds probability =
     (if js_strict_eq probability (Fin 0) then ''impossible''
      else if js_strict_eq probability (Fin 1) then ''1 in 1''
      else ''1 in '' @ toLocaleString_en_US 2 (js_div (Fin 1) probability))"

section \<open>Main analysis\<close>

text \<open>
  The payout table is the object built by \<open>parsePayoutsCsv\<close>: for a pick count a row, and
  in a row for a hit count the Number that \<open>parseFloat\<close> returned. \<open>analyzeKeno\<close> prints
  two tables; the model returns what each printed line is formatted from: for the first
  table the rows of the outcomes and the three figures below them, for the second table the
  figures of each line and the text of its last column. An exception of a BigInt operation
  is the left summand of a result.
\<close>

type_synonym payout_table = "int \<Rightarrow> (int \<Rightarrow> jsnum option) option"

definition lookup_payout :: "payout_table \<Rightarrow> int \<Rightarrow> int \<Rightarrow> jsnum" where
  \<comment> \<open>\<open>payouts[picks]?.[hits] || 0\<close>: an absent row or entry, and an entry NaN or zero, give 0\<close>
  "lookup_payout payouts picks hits =
     (case payouts picks of
        None \<Rightarrow> Fin 0
      | Some row \<Rightarrow> (case row hits of
                       None \<Rightarrow> Fin 0
                     | Some v \<Rightarrow> if truthy v then v else Fin 0))"

record outcome_row =
  row_hits :: int
  probability :: jsnum
  odds :: string
  payout :: jsnum
  evContribution :: jsnum

record pick_detail =
  detail_picks :: int
  rows :: "outcome_row list"
  totalExpectedValue :: jsnum
  hasAnyPayout :: bool
  houseEdge :: jsnum
  rtp :: jsnum

record pick_summary =
  summary_picks :: int
  totalEV :: jsnum
  summary_houseEdge :: jsnum
  summary_rtp :: jsnum
  maxPayout :: jsnum
  bestWinOdds :: jsnum
  winOddsStr :: string

function detail_hits_loop ::
  "payout_table \<Rightarrow> int \<Rightarrow> int \<Rightarrow> jsnum \<times> bool \<times> outcome_row list
     \<Rightarrow> js_error + jsnum \<times> bool \<times> outcome_row list" where
  "detail_hits_loop payouts picks hits (tev, hap, rs) =
     (if hits \<le> picks then
        (case calculateProbability picks hits of
           Inl e \<Rightarrow> Inl e
         | Inr prob \<Rightarrow>
             (let pay = lookup_payout payouts picks hits;
                  ev = js_mul prob pay;
                  r = \<lparr>row_hits = hits, probability = prob, odds = probabilityToOdds prob,
                       payout = pay, evContribution = ev\<rparr>
              in detail_hits_loop payouts picks (hits + 1)
                   (js_add tev ev, (if js_gt pay (Fin 0) then True else hap), rs @ [r])))
      else Inr (tev, hap, rs))"
  by pat_completeness auto
termination
  by (relation "measure (\<lambda>(payouts, picks, hits, st). nat (picks + 1 - hits))") auto

definition detail_for :: "payout_table \<Rightarrow> int \<Rightarrow> js_error + pick_detail" where
  \<comment> \<open>the body of the first loop over \<open>picks\<close> (lines 148 to 185)\<close>
  "detail_for payouts picks =
     (case detail_hits_loop payouts picks 0 (Fin 0, False, []) of
        Inl e \<Rightarrow> Inl e
      | Inr (tev, hap, rs) \<Rightarrow>
          Inr \<lparr>detail_picks = picks, rows = rs, totalExpectedValue = tev, hasAnyPayout = hap,
               houseEdge = js_mul (js_sub (Fin 1) tev) (Fin 100),
               rtp = js_mul tev (Fin 100)\<rparr>)"

function summary_hits_loop ::
  "payout_table \<Rightarrow> int \<Rightarrow> int \<Rightarrow> jsnum \<times> jsnum \<times> jsnum
     \<Rightarrow> js_error + jsnum \<times> jsnum \<times> jsnum" where
  "summary_hits_loop payouts picks hits (tev, maxp, best) =
     (if hits \<le> picks then
        (case calculateProbability picks hits of
           Inl e \<Rightarrow> Inl e
         | Inr prob \<Rightarrow>
             (let pay = lookup_payout payouts picks hits
              in summary_hits_loop payouts picks (hits + 1)
                   (js_add tev (js_mul prob pay),
                    (if js_gt pay maxp then pay else maxp),
                    (if js_gt pay (Fin 0) then js_add best prob else best))))
      else Inr (tev, maxp, best))"
  by pat_completeness auto
termination
  by (relation "measure (\<lambda>(payouts, picks, hits, st). nat (picks + 1 - hits))") auto

definition summary_for :: "payout_table \<Rightarrow> int \<Rightarrow> js_error + pick_summary" where
  \<comment> \<open>the body of the second loop over \<open>picks\<close> (lines 196 to 211)\<close>
  "summary_for payouts picks =
     (case summary_hits_loop payouts picks 0 (Fin 0, Fin 0, Fin 0) of
        Inl e \<Rightarrow> Inl e
      | Inr (tev, maxp, best) \<Rightarrow>
          Inr \<lparr>summary_picks = picks, totalEV = tev,
               summary_houseEdge = js_mul (js_sub (Fin 1) tev) (Fin 100),
               summary_rtp = js_mul tev (Fin 100),
               maxPayout = maxp, bestWinOdds = best,
               winOddsStr = ''1 in '' @ toFixed 2 (js_div (Fin 1) best)\<rparr>)"

function detail_picks_loop ::
  "payout_table \<Rightarrow> int \<Rightarrow> pick_detail list \<Rightarrow> js_error + pick_detail list" where
  "detail_picks_loop payouts picks acc =
     (if picks \<le> 10 then
        (case detail_for payouts picks of
           Inl e \<Rightarrow> Inl e
         | Inr d \<Rightarrow> detail_picks_loop payouts (picks + 1) (acc @ [d]))
      else Inr acc)"
  by pat_completeness auto
termination
  by (relation "measure (\<lambda>(payouts, picks, acc). nat (11 - picks))") auto

function summary_picks_loop ::
  "payout_table \<Rightarrow> int \<Rightarrow> pick_summary list \<Rightarrow> js_error + pick_summary list" where
  "summary_picks_loop payouts picks acc =
     (if picks \<le> 10 then
        (case summary_for payouts picks of
           Inl e \<Rightarrow> Inl e
         | Inr d \<Rightarrow> summary_picks_loop payouts (picks + 1) (acc @ [d]))
      else Inr acc)"
  by pat_completeness auto
termination
  by (relation "measure (\<lambda>(payouts, picks, acc). nat (11 - picks))") auto

definition analyzeKeno :: "payout_table \<Rightarrow> js_error + pick_detail list \<times> pick_summary list" where
  "analyzeKeno payouts =
     (case detail_picks_loop payouts 1 [] of
        Inl e \<Rightarrow> Inl e
      | Inr ds \<Rightarrow> (case summary_picks_loop payouts 1 [] of
                     Inl e \<Rightarrow> Inl e
                   | Inr ss \<Rightarrow> Inr (ds, ss)))"

section \<open>The hypergeometric formula\<close>

text \<open>
  The probability of \<open>hits\<close> matches among \<open>picks\<close> numbers as the specification writes it,
  \<open>C(20, hits) * C(60, picks - hits) / C(80, picks)\<close>, with the binomial coefficient of
  the library, as a rational number.
\<close>

definition spec_probability :: "nat \<Rightarrow> nat \<Rightarrow> rat" where
  "spec_probability picks hits =
     of_nat ((20 choose hits) * (60 choose (picks - hits))) / of_nat (80 choose picks)"

section \<open>Rounding to binary64: exponent, nearest value, error\<close>

declare factorial_loop.simps [simp del] numerator_loop.simps [simp del]
  decimal_digits.simps [simp del] shortest_decimal.simps [simp del] group_thousands.simps [simp del]
  detail_hits_loop.simps [simp del] summary_hits_loop.simps [simp del]
  detail_picks_loop.simps [simp del] summary_picks_loop.simps [simp del]
  scale_up.simps [simp del] shortest_from.simps [simp del]


lemma pow2_pos: "0 < pow2 e"
  by (simp add: pow2_def zero_less_power_int)

lemma pow2_add: "pow2 (a + b) = pow2 a * pow2 b"
  by (simp add: pow2_def power_int_add)

lemma pow2_diff: "pow2 (a - b) = pow2 a / pow2 b"
  by (simp add: pow2_def power_int_diff)

lemma pow2_mono: "a \<le> b \<Longrightarrow> pow2 a \<le> pow2 b"
  by (simp add: pow2_def power_int_increasing)

lemma pow2_strict_mono: "a < b \<Longrightarrow> pow2 a < pow2 b"
  by (simp add: pow2_def power_int_strict_increasing)

lemma pow2_less_cancel: "pow2 a < pow2 b \<Longrightarrow> a < b"
  using pow2_mono [of b a] by (cases "a < b") auto

lemma pow2_nat: "0 \<le> e \<Longrightarrow> pow2 e = 2 ^ nat e"
  by (simp add: pow2_def power_int_def)

lemma pow2_neg: "e \<le> 0 \<Longrightarrow> pow2 e = 1 / 2 ^ nat (- e)"
  by (cases "e = 0") (simp_all add: pow2_def power_int_def field_simps)

lemma ilog2_bounds:
  assumes "0 < x"
  shows "pow2 (ilog2 x) \<le> x \<and> x < pow2 (ilog2 x + 1)"
proof -
  obtain p q where pq: "quotient_of x = (p, q)"
    by (cases "quotient_of x")
  have q: "0 < q" and x: "x = of_int p / of_int q"
    using pq by (auto dest: quotient_of_denom_pos quotient_of_div)
  have p: "0 < p"
    using assms q x by (simp add: zero_less_divide_iff)
  let ?d = "bitlen p - bitlen q"
  have bp: "1 \<le> bitlen p" and bq: "1 \<le> bitlen q"
    using p q by (simp_all add: bitlen_alt_def)
  have "of_int p < (of_int (2 ^ nat (bitlen p)) :: rat)"
    using bitlen_bounds [OF p] by (simp only: of_int_less_iff)
  then have p_hi: "of_int p < pow2 (bitlen p)"
    using bp by (simp add: pow2_nat)
  have "(of_int (2 ^ nat (bitlen p - 1)) :: rat) \<le> of_int p"
    using bitlen_bounds [OF p] by (simp only: of_int_le_iff)
  then have p_lo: "pow2 (bitlen p - 1) \<le> of_int p"
    using bp by (simp add: pow2_nat)
  have "of_int q < (of_int (2 ^ nat (bitlen q)) :: rat)"
    using bitlen_bounds [OF q] by (simp only: of_int_less_iff)
  then have q_hi: "of_int q < pow2 (bitlen q)"
    using bq by (simp add: pow2_nat)
  have "(of_int (2 ^ nat (bitlen q - 1)) :: rat) \<le> of_int q"
    using bitlen_bounds [OF q] by (simp only: of_int_le_iff)
  then have q_lo: "pow2 (bitlen q - 1) \<le> of_int q"
    using bq by (simp add: pow2_nat)
  have qpos: "(0::rat) < of_int q" using q by simp
  have "x * of_int q = of_int p"
    using x qpos by simp
  have hi: "x < pow2 (?d + 1)"
  proof -
    have "of_int p < pow2 (?d + 1) * pow2 (bitlen q - 1)"
      using p_hi by (simp add: pow2_add [symmetric])
    also have "\<dots> \<le> pow2 (?d + 1) * of_int q"
      using q_lo pow2_pos [of "?d + 1"] by (simp add: mult_left_mono)
    finally show ?thesis
      using qpos x by (simp add: pos_divide_less_eq)
  qed
  have lo: "pow2 (?d - 1) < x"
  proof -
    have "pow2 (?d - 1) * of_int q < pow2 (?d - 1) * pow2 (bitlen q)"
      using q_hi pow2_pos [of "?d - 1"] by (simp add: mult_strict_left_mono)
    also have "\<dots> = pow2 (bitlen p - 1)"
      by (simp add: pow2_add [symmetric])
    also have "\<dots> \<le> of_int p" by (rule p_lo)
    finally show ?thesis
      using qpos x by (simp add: pos_less_divide_eq)
  qed
  show ?thesis
  proof (cases "pow2 ?d \<le> x")
    case True
    then have "ilog2 x = ?d" by (simp add: ilog2_def pq)
    with True hi show ?thesis by simp
  next
    case False
    then have "ilog2 x = ?d - 1" by (simp add: ilog2_def pq)
    with False lo show ?thesis by simp
  qed
qed

lemma ilog2_unique:
  assumes "pow2 E \<le> x" and "x < pow2 (E + 1)"
  shows "ilog2 x = E"
proof -
  have "0 < x" using assms(1) pow2_pos [of E] by simp
  from ilog2_bounds [OF this]
  have "pow2 (ilog2 x) < pow2 (E + 1)" and "pow2 E < pow2 (ilog2 x + 1)"
    using assms by auto
  then have "ilog2 x < E + 1" and "E < ilog2 x + 1"
    by (auto dest: pow2_less_cancel)
  then show ?thesis by simp
qed

lemma round_half_even_of_int: "round_half_even (of_int n) = n"
  by (simp add: round_half_even_def)

lemma floor_facts: "of_int \<lfloor>x::rat\<rfloor> \<le> x \<and> x < of_int \<lfloor>x\<rfloor> + 1"
  by linarith

lemma round_half_even_cases:
  "round_half_even x = \<lfloor>x\<rfloor> \<and> x - of_int \<lfloor>x\<rfloor> \<le> 1 / 2 \<or>
   round_half_even x = \<lfloor>x\<rfloor> + 1 \<and> 1 / 2 \<le> x - of_int \<lfloor>x\<rfloor>"
  by (simp add: round_half_even_def Let_def)

lemma round_half_even_close:
  assumes "\<bar>x - of_int n\<bar> < 1 / 2"
  shows "round_half_even x = n"
proof -
  let ?f = "\<lfloor>x\<rfloor>"
  have 1: "of_int ?f \<le> x" and 2: "x < of_int ?f + 1"
    using floor_facts [of x] by simp_all
  from assms have 3: "of_int n - 1 / 2 < x" and 4: "x < of_int n + 1 / 2"
    by linarith+
  have "(of_int ?f :: rat) < of_int n + 1" using 1 4 by linarith
  then have "(of_int ?f :: rat) < of_int (n + 1)" by simp
  then have a: "?f < n + 1" by (simp only: of_int_less_iff)
  have "(of_int n :: rat) - 1 < of_int ?f + 1" using 2 3 by linarith
  then have "(of_int (n - 1) :: rat) < of_int (?f + 1)" by simp
  then have b: "n - 1 < ?f + 1" by (simp only: of_int_less_iff)
  consider "?f = n" | "?f = n - 1" using a b by linarith
  then show ?thesis
  proof cases
    case 1
    with 4 show ?thesis by (simp add: round_half_even_def Let_def)
  next
    case 2
    with 3 show ?thesis by (simp add: round_half_even_def Let_def)
  qed
qed

lemma round_half_even_err: "\<bar>of_int (round_half_even x) - x\<bar> \<le> 1 / 2"
  using round_half_even_cases [of x] floor_facts [of x]
  by (auto simp: abs_le_iff)

lemma round_half_even_le:
  assumes "x \<le> of_int n"
  shows "round_half_even x \<le> n"
proof -
  have f: "\<lfloor>x\<rfloor> \<le> n" using assms by (simp add: floor_le_iff)
  show ?thesis
  proof (cases "round_half_even x = \<lfloor>x\<rfloor>")
    case True
    with f show ?thesis by simp
  next
    case False
    then have r: "round_half_even x = \<lfloor>x\<rfloor> + 1" and "1 / 2 \<le> x - of_int \<lfloor>x\<rfloor>"
      using round_half_even_cases [of x] by auto
    then have "(of_int \<lfloor>x\<rfloor> :: rat) < of_int n" using assms by linarith
    then have "\<lfloor>x\<rfloor> < n" by (simp only: of_int_less_iff)
    with r show ?thesis by simp
  qed
qed

lemma round_half_even_ge:
  assumes "of_int n \<le> x"
  shows "n \<le> round_half_even x"
proof -
  have "n \<le> \<lfloor>x\<rfloor>" using assms by (simp add: le_floor_iff)
  then show ?thesis using round_half_even_cases [of x] by auto
qed


lemma ulp_of_pos: "0 < ulp_of a"
  by (simp add: ulp_of_def pow2_pos)

lemma ulp_of_eq:
  assumes "pow2 E \<le> a" and "a < pow2 (E + 1)"
  shows "ulp_of a = pow2 (max E (- 1022) - 52)"
  using ilog2_unique [OF assms] by (simp add: ulp_of_def)

lemma round_mag_eqI:
  assumes "pow2 E \<le> a" and "a < pow2 (E + 1)"
    and u: "u = pow2 (max E (- 1022) - 52)"
    and close: "\<bar>a - of_int n * u\<bar> < u / 2"
  shows "round_mag a = of_int n * u"
proof -
  have a: "0 < a" using assms(1) pow2_pos [of E] by simp
  have ulp: "ulp_of a = u" using ulp_of_eq [OF assms(1,2)] u by simp
  have upos: "0 < u" using u by (simp add: pow2_pos)
  have "\<bar>a - of_int n * u\<bar> / u < (u / 2) / u"
    using close upos by (simp only: divide_strict_right_mono)
  moreover have "a / u - of_int n = (a - of_int n * u) / u"
    using upos by (simp add: field_simps)
  then have "\<bar>a / u - of_int n\<bar> = \<bar>a - of_int n * u\<bar> / \<bar>u\<bar>"
    by (simp only: abs_divide)
  ultimately have "\<bar>a / u - of_int n\<bar> < 1 / 2"
    using upos by simp
  then have "round_half_even (a / u) = n" by (rule round_half_even_close)
  then show ?thesis using a ulp by (simp add: round_mag_def)
qed

lemma round_mag_exact:
  assumes "0 < a" and "a / ulp_of a = of_int n"
  shows "round_mag a = a"
proof -
  have "round_half_even (a / ulp_of a) = n"
    using assms(2) by (simp add: round_half_even_of_int)
  moreover have "of_int n * ulp_of a = a"
    using assms(2) ulp_of_pos [of a] by (simp add: field_simps)
  ultimately show ?thesis using assms(1) by (simp add: round_mag_def)
qed

lemma round_mag_nonneg: "0 \<le> round_mag a"
proof (cases "a \<le> 0")
  case True
  then show ?thesis by (simp add: round_mag_def)
next
  case False
  then have "of_int 0 \<le> a / ulp_of a" using ulp_of_pos [of a] by simp
  then have "0 \<le> round_half_even (a / ulp_of a)" by (rule round_half_even_ge)
  then show ?thesis using False ulp_of_pos [of a] by (simp add: round_mag_def)
qed

lemma round_mag_int:
  assumes "0 \<le> i" and "i \<le> 2 ^ 53"
  shows "round_mag (of_int i) = of_int i"
proof (cases "i = 0")
  case True
  then show ?thesis by (simp add: round_mag_def)
next
  case False
  with assms have ipos: "0 < i" by simp
  then have apos: "(0::rat) < of_int i" by simp
  let ?e = "ilog2 (of_int i)"
  have b: "pow2 ?e \<le> of_int i" "of_int i < pow2 (?e + 1)"
    using ilog2_bounds [OF apos] by simp_all
  have "(1::rat) \<le> of_int i" using ipos by simp
  then have "pow2 0 < pow2 (?e + 1)" using b(2) by (simp add: pow2_def)
  then have e0: "0 \<le> ?e" by (auto dest: pow2_less_cancel)
  have "(of_int i :: rat) \<le> of_int (2 ^ 53)" using assms(2) by (simp only: of_int_le_iff)
  then have i53: "of_int i \<le> pow2 53" by (simp add: pow2_def)
  then have "pow2 ?e < pow2 54" using b(1) pow2_strict_mono [of 53 54] by simp
  then have e53: "?e \<le> 53" by (auto dest: pow2_less_cancel)
  have ulp: "ulp_of (of_int i) = pow2 (?e - 52)"
    using e0 by (simp add: ulp_of_def max_def)
  show ?thesis
  proof (cases "?e \<le> 52")
    case True
    have "of_int i / pow2 (?e - 52) = of_int i * pow2 (52 - ?e)"
      using pow2_add [of "?e - 52" "52 - ?e"] pow2_pos [of "?e - 52"]
      by (simp add: pow2_def field_simps)
    also have "\<dots> = of_int (i * 2 ^ nat (52 - ?e))"
      using True by (simp add: pow2_nat)
    finally have "of_int i / ulp_of (of_int i) = of_int (i * 2 ^ nat (52 - ?e))"
      using ulp by simp
    then show ?thesis by (rule round_mag_exact [OF apos])
  next
    case False
    with e53 have e: "?e = 53" by simp
    with b(1) i53 have "of_int i = pow2 53" by simp
    then have "of_int i / pow2 (?e - 52) = of_int (2 ^ 52)"
      using e by (simp add: pow2_def)
    then have "of_int i / ulp_of (of_int i) = of_int (2 ^ 52)"
      using ulp by simp
    then show ?thesis by (rule round_mag_exact [OF apos])
  qed
qed

lemma round_mag_err:
  assumes "pow2 (- 1022) \<le> a"
  shows "\<bar>round_mag a - a\<bar> \<le> a / 2 ^ 53"
proof -
  have apos: "0 < a" using assms pow2_pos [of "- 1022"] by simp
  let ?e = "ilog2 a"
  have b: "pow2 ?e \<le> a" "a < pow2 (?e + 1)"
    using ilog2_bounds [OF apos] by simp_all
  have "pow2 (- 1022) < pow2 (?e + 1)" using assms b(2) by simp
  then have "- 1022 \<le> ?e" by (auto dest: pow2_less_cancel)
  then have ulp: "ulp_of a = pow2 (?e - 52)" by (simp add: ulp_of_def max_def)
  let ?u = "pow2 (?e - 52)"
  have upos: "0 < ?u" by (rule pow2_pos)
  have "\<bar>of_int (round_half_even (a / ?u)) - a / ?u\<bar> * ?u \<le> (1 / 2) * ?u"
    using round_half_even_err [of "a / ?u"] upos by (simp only: mult_right_mono less_imp_le)
  moreover have "of_int (round_half_even (a / ?u)) * ?u - a
      = (of_int (round_half_even (a / ?u)) - a / ?u) * ?u"
    using upos by (simp add: field_simps)
  then have "\<bar>of_int (round_half_even (a / ?u)) * ?u - a\<bar>
      = \<bar>of_int (round_half_even (a / ?u)) - a / ?u\<bar> * \<bar>?u\<bar>"
    by (simp only: abs_mult)
  ultimately have "\<bar>round_mag a - a\<bar> \<le> ?u / 2"
    using apos ulp upos by (simp add: round_mag_def abs_of_pos)
  also have "?u / 2 = pow2 ?e / 2 ^ 53"
    using pow2_diff [of ?e 52] by (simp add: pow2_def)
  also have "\<dots> \<le> a / 2 ^ 53"
    using b(1) by (simp add: divide_right_mono)
  finally show ?thesis .
qed

lemma round_mag_le_1:
  assumes "a \<le> 1"
  shows "round_mag a \<le> 1"
proof (cases "a \<le> 0")
  case True
  then show ?thesis by (simp add: round_mag_def)
next
  case False
  then have apos: "0 < a" by simp
  show ?thesis
  proof (cases "a = 1")
    case True
    then show ?thesis using round_mag_int [of 1] by simp
  next
    case False
    with assms have a1: "a < 1" by simp
    let ?k = "max (ilog2 a) (- 1022) - 52"
    have "pow2 (ilog2 a) < pow2 0"
      using ilog2_bounds [OF apos] a1 by (simp add: pow2_def)
    then have "ilog2 a < 0" by (auto dest: pow2_less_cancel)
    then have k: "?k \<le> 0" by simp
    let ?N = "2 ^ nat (- ?k) :: int"
    have u: "ulp_of a = 1 / of_int ?N"
      using pow2_neg [OF k] by (simp add: ulp_of_def)
    have Npos: "(0::rat) < of_int ?N" by simp
    have "a / ulp_of a \<le> of_int ?N"
      using a1 u Npos by simp
    then have "round_half_even (a / ulp_of a) \<le> ?N" by (rule round_half_even_le)
    then have "(of_int (round_half_even (a / ulp_of a)) :: rat) \<le> of_int ?N"
      by (simp only: of_int_le_iff)
    then have "of_int (round_half_even (a / ulp_of a)) * ulp_of a \<le> 1"
      using Npos unfolding u by (simp add: field_simps)
    then show ?thesis using apos by (simp add: round_mag_def)
  qed
qed

lemma mk_double_False:
  "round_mag a < 2 ^ 1024 \<Longrightarrow> mk_double False a = Fin (round_mag a)"
  by (simp add: mk_double_def Let_def)

section \<open>The loops of the combinatorics\<close>

lemma factorial_loop_fact:
  "m \<le> k \<Longrightarrow> factorial_loop (int m + 1) (int k) (int (fact m)) = int (fact k)"
proof (induction "k - m" arbitrary: m)
  case 0
  then have "m = k" by simp
  then show ?case by (subst factorial_loop.simps) simp
next
  case (Suc d)
  then have mk: "m < k" and d: "d = k - Suc m" by simp_all
  have acc: "int (fact m) * (int m + 1) = int (fact (Suc m))"
    by (simp add: algebra_simps)
  have "factorial_loop (int m + 1) (int k) (int (fact m))
      = factorial_loop (int m + 1 + 1) (int k) (int (fact m) * (int m + 1))"
    using mk by (subst factorial_loop.simps) simp
  also have "\<dots> = factorial_loop (int (Suc m) + 1) (int k) (int (fact (Suc m)))"
    by (simp only: acc) simp
  also have "\<dots> = int (fact k)"
    using Suc.hyps(1) [OF d] mk by simp
  finally show ?case .
qed

lemma factorial_fact: "factorial (int k) = int (fact k)"
proof (cases "k \<le> 1")
  case True
  then have "k = 0 \<or> k = 1" by auto
  then show ?thesis by (auto simp: factorial_def)
next
  case False
  then have "1 \<le> k" by simp
  from factorial_loop_fact [OF this] False show ?thesis
    by (simp add: factorial_def)
qed

lemma binomial_step:
  assumes "i < n"
  shows "fact i * (n choose i) * (n - i) = fact (Suc i) * (n choose Suc i)"
proof -
  have h: "Suc i * (n choose Suc i) = (n - i) * (n choose i)"
    using binomial_absorb_comp binomial_absorption by presburger
  have "fact (Suc i) * (n choose Suc i) = fact i * (Suc i * (n choose Suc i))"
    by (simp add: algebra_simps)
  also have "\<dots> = fact i * ((n - i) * (n choose i))"
    by (simp only: h)
  finally show ?thesis by (simp add: mult_ac)
qed

lemma numerator_loop_binomial:
  "i \<le> k \<Longrightarrow> k \<le> n \<Longrightarrow>
   numerator_loop (int i) (int k) (int n) (int (fact i * (n choose i))) = int (fact k * (n choose k))"
proof (induction "k - i" arbitrary: i)
  case 0
  then have "i = k" by simp
  then show ?case by (subst numerator_loop.simps) simp
next
  case (Suc d)
  then have ik: "i < k" and d: "d = k - Suc i" and "i < n" by simp_all
  have "int (fact i * (n choose i)) * (int n - int i) = int (fact (Suc i) * (n choose Suc i))"
    using binomial_step [OF \<open>i < n\<close>] \<open>i < n\<close>
    by (metis less_imp_le_nat of_nat_diff of_nat_mult)
  then have "numerator_loop (int i) (int k) (int n) (int (fact i * (n choose i)))
      = numerator_loop (int (Suc i)) (int k) (int n) (int (fact (Suc i) * (n choose Suc i)))"
    using ik by (subst numerator_loop.simps) (simp only: of_nat_less_iff if_True of_nat_Suc add.commute)
  also have "\<dots> = int (fact k * (n choose k))"
    using Suc.hyps(1) [OF d] ik Suc.prems by simp
  finally show ?case .
qed

section \<open>Conversion of exact integers, the coefficients\<close>

lemma round_half_even_tie:
  "round_half_even (of_int n + 1 / 2) = (if even n then n else n + 1)"
proof -
  have "\<lfloor>(of_int n :: rat) + 1 / 2\<rfloor> = n" by (simp add: floor_eq_iff)
  then show ?thesis by (simp add: round_half_even_def Let_def)
qed

lemma round_mag_tieI:
  assumes "pow2 E \<le> a" and "a < pow2 (E + 1)"
    and u: "u = pow2 (max E (- 1022) - 52)"
    and tie: "a = (of_int n + 1 / 2) * u"
  shows "round_mag a = of_int (if even n then n else n + 1) * u"
proof -
  have a: "0 < a" using assms(1) pow2_pos [of E] by simp
  have ulp: "ulp_of a = u" using ulp_of_eq [OF assms(1,2)] u by simp
  have upos: "0 < u" using u by (simp add: pow2_pos)
  have "a / u = of_int n + 1 / 2" using tie upos by simp
  then have "round_half_even (a / u) = (if even n then n else n + 1)"
    by (simp only: round_half_even_tie)
  then show ?thesis using a ulp by (simp add: round_mag_def)
qed

lemma Number_of_BigInt_nonneg:
  "0 \<le> i \<Longrightarrow> Number_of_BigInt i = mk_double False (of_int i)"
  by (simp add: Number_of_BigInt_def)

lemma Number_of_BigInt_exact:
  assumes "0 \<le> i" and "i \<le> 2 ^ 53"
  shows "Number_of_BigInt i = Fin (of_int i)"
proof -
  have r: "round_mag (of_int i) = of_int i" using assms by (rule round_mag_int)
  have "(of_int i :: rat) \<le> of_int (2 ^ 53)" using assms(2) by (simp only: of_int_le_iff)
  also have "\<dots> < 2 ^ 1024" by simp
  finally have "round_mag (of_int i) < 2 ^ 1024" using r by simp
  then show ?thesis
    using assms(1) r by (simp add: Number_of_BigInt_nonneg mk_double_False)
qed

lemma numerator_loop_choose:
  assumes "k \<le> n"
  shows "numerator_loop 0 (int k) (int n) 1 = int (fact k * (n choose k))"
  using numerator_loop_binomial [of 0 k n] assms by simp

lemma bigint_div_exact:
  "0 < b \<Longrightarrow> 0 \<le> c \<Longrightarrow> bigint_div (b * c) b = Inr c"
  by (cases "c = 0") (simp_all add: bigint_div_def sgn_mult abs_mult)

lemma binomial_js_quotient:
  assumes "k \<le> n"
  shows "bigint_div (numerator_loop 0 (int k) (int n) 1) (factorial (int k)) = Inr (int (n choose k))"
proof -
  have "(0::int) < int (fact k)" by simp
  then show ?thesis
    using bigint_div_exact [of "int (fact k)" "int (n choose k)"]
    by (simp add: numerator_loop_choose [OF assms] factorial_fact)
qed

lemma binomial_js_nat:
  "binomial_js (int n) (int k) = Inr (Number_of_BigInt (int (n choose k)))"
proof -
  consider "n < k" | "k = 0" | "k = n" "k \<noteq> 0" | "0 < k" "k < n" by linarith
  then show ?thesis
  proof cases
    case 1
    then show ?thesis using Number_of_BigInt_exact [of 0] by (simp add: binomial_js_def binomial_eq_0)
  next
    case 2
    then show ?thesis using Number_of_BigInt_exact [of 1] by (simp add: binomial_js_def)
  next
    case 3
    then show ?thesis using Number_of_BigInt_exact [of 1] by (simp add: binomial_js_def)
  next
    case 4
    show ?thesis
    proof (cases "int k > int n - int k")
      case True
      then have k': "int n - int k = int (n - k)" "n - k \<le> n" using 4 by simp_all
      have "n choose (n - k) = n choose k"
        using 4 by (simp add: binomial_symmetric [symmetric])
      then show ?thesis
        using 4 True binomial_js_quotient [OF k'(2)]
        by (simp add: binomial_js_def Let_def k'(1) del: of_nat_diff)
    next
      case False
      have "k \<le> n" using 4 by simp
      then show ?thesis
        using 4 False binomial_js_quotient [of k n]
        by (simp add: binomial_js_def Let_def)
    qed
  qed
qed

lemma binomial_js_outside:
  "k < 0 \<or> n < k \<Longrightarrow> binomial_js n k = Inr (Fin 0)"
  by (auto simp: binomial_js_def)

lemma binomial_js_80_10: "binomial_js 80 10 = Inr (Fin 1646492110120)"
  by (simp add: binomial_js_def numerator_loop.simps factorial_def factorial_loop.simps
      bigint_div_def Let_def Number_of_BigInt_exact)

lemma choose_57_25: "(57 choose 25 :: nat) = 9929472283517787"
proof -
  have "int (fact 25 * (57 choose 25)) = numerator_loop 0 (int 25) (int 57) 1"
    by (rule numerator_loop_choose [symmetric]) simp
  also have "\<dots> = 9929472283517787 * int (fact 25)"
    by (simp add: numerator_loop.simps fact_numeral)
  finally have "int (57 choose 25) * int (fact 25) = 9929472283517787 * int (fact 25)"
    by (simp add: mult.commute)
  then have "int (57 choose 25) = 9929472283517787"
    by (simp only: mult_cancel_right) simp
  then show ?thesis by linarith
qed

lemma Number_of_BigInt_tie: "Number_of_BigInt 9929472283517787 = Fin 9929472283517788"
proof -
  have "round_mag 9929472283517787 = of_int (if even (4964736141758893::int) then 4964736141758893 else 4964736141758893 + 1) * 2"
    by (rule round_mag_tieI [where E = 53]) (simp_all add: pow2_def)
  then have "round_mag 9929472283517787 = 9929472283517788" by simp
  then show ?thesis by (simp add: Number_of_BigInt_def mk_double_def)
qed

lemma binomial_js_57_25: "binomial_js 57 25 = Inr (Fin 9929472283517788)"
  using binomial_js_nat [of 57 25] by (simp add: choose_57_25 Number_of_BigInt_tie)

section \<open>The value of calculateProbability\<close>

lemma choose_80_10: "(80 choose 10 :: nat) = 1646492110120"
proof -
  have "int (fact 10 * (80 choose 10)) = numerator_loop 0 (int 10) (int 80) 1"
    by (rule numerator_loop_choose [symmetric]) simp
  also have "\<dots> = 1646492110120 * int (fact 10)"
    by (simp add: numerator_loop.simps fact_numeral)
  finally have "int (80 choose 10) * int (fact 10) = 1646492110120 * int (fact 10)"
    by (simp add: mult.commute)
  then have "int (80 choose 10) = 1646492110120"
    by (simp only: mult_cancel_right) simp
  then show ?thesis by linarith
qed

lemma ways_bounds:
  assumes "h \<le> p" and "p \<le> 10"
  shows "(20 choose h) * (60 choose (p - h)) \<le> 80 choose p"
    and "80 choose p \<le> 1646492110120"
    and "0 < (20 choose h) * (60 choose (p - h))"
proof -
  have "(\<Sum>k\<le>p. (20 choose k) * (60 choose (p - k))) = (20 + 60) choose p"
    by (rule vandermonde)
  moreover have "(20 choose h) * (60 choose (p - h)) \<le> (\<Sum>k\<le>p. (20 choose k) * (60 choose (p - k)))"
    using assms(1) by (intro member_le_sum) simp_all
  ultimately show "(20 choose h) * (60 choose (p - h)) \<le> 80 choose p" by simp
  have "80 choose p \<le> 80 choose 10"
    using assms(2) by (intro binomial_mono) simp_all
  then show "80 choose p \<le> 1646492110120" by (simp add: choose_80_10)
  show "0 < (20 choose h) * (60 choose (p - h))"
    using assms by simp
qed

lemma js_mul_exact:
  assumes "a * b \<le> 2 ^ 53"
  shows "js_mul (Fin (of_nat a)) (Fin (of_nat b)) = Fin (of_nat (a * b))"
proof -
  have "int (a * b) \<le> 2 ^ 53" using assms by (metis of_nat_le_iff of_nat_numeral of_nat_power)
  then have "Number_of_BigInt (int (a * b)) = Fin (of_int (int (a * b)))"
    by (intro Number_of_BigInt_exact) simp_all
  then show ?thesis
    by (simp add: js_mul_def Number_of_BigInt_nonneg)
qed

lemma js_div_ratio:
  assumes "a \<le> c" and "0 < c"
  shows "js_div (Fin (of_nat a)) (Fin (of_nat c)) = Fin (round_mag (of_nat a / of_nat c))"
proof -
  have "(of_nat a :: rat) / of_nat c \<le> 1" using assms by simp
  then have "round_mag (of_nat a / of_nat c) \<le> 1" by (rule round_mag_le_1)
  also have "(1::rat) < 2 ^ 1024" by simp
  finally have "mk_double False (of_nat a / of_nat c) = Fin (round_mag (of_nat a / of_nat c))"
    by (rule mk_double_False)
  then show ?thesis using assms(2) by (simp add: js_div_def)
qed

lemma calculateProbability_value:
  assumes "h \<le> p" and "p \<le> 10"
  shows "calculateProbability (int p) (int h) = Inr (Fin (round_mag (spec_probability p h)))"
proof -
  let ?c1 = "20 choose h" and ?c2 = "60 choose (p - h)" and ?c3 = "80 choose p"
  note b = ways_bounds [OF assms]
  have c3: "?c3 \<le> 2 ^ 53" using b(2) by simp
  have pos: "0 < ?c1" "0 < ?c2" using b(3) by simp_all
  have ge: "1 \<le> ?c1" "1 \<le> ?c2" using pos by linarith+
  have "?c1 * 1 \<le> ?c1 * ?c2" using ge(2) by (rule mult_le_mono2)
  then have "?c1 \<le> ?c1 * ?c2" by (simp only: nat_mult_1_right)
  then have c1: "?c1 \<le> 2 ^ 53" using b(1) c3 by (blast intro: order_trans)
  have "1 * ?c2 \<le> ?c1 * ?c2" using ge(1) by (rule mult_le_mono1)
  then have "?c2 \<le> ?c1 * ?c2" by (simp only: nat_mult_1)
  then have c2: "?c2 \<le> 2 ^ 53" using b(1) c3 by (blast intro: order_trans)
  have n1: "binomial_js 20 (int h) = Inr (Fin (of_nat ?c1))"
    using binomial_js_nat [of 20 h] c1 by (simp add: Number_of_BigInt_exact)
  have hp: "int p - int h = int (p - h)" using assms(1) by simp
  have n2: "binomial_js 60 (int p - int h) = Inr (Fin (of_nat ?c2))"
    unfolding hp using binomial_js_nat [of 60 "p - h"] c2 by (simp add: Number_of_BigInt_exact)
  have n3: "binomial_js 80 (int p) = Inr (Fin (of_nat ?c3))"
    using binomial_js_nat [of 80 p] c3 by (simp add: Number_of_BigInt_exact)
  have m: "js_mul (Fin (of_nat ?c1)) (Fin (of_nat ?c2)) = Fin (of_nat (?c1 * ?c2))"
    using b(1) c3 by (intro js_mul_exact) simp
  have d: "js_div (Fin (of_nat (?c1 * ?c2))) (Fin (of_nat ?c3))
      = Fin (round_mag (of_nat (?c1 * ?c2) / of_nat ?c3))"
    using b(1) assms by (intro js_div_ratio) simp_all
  have guard: "\<not> (int h > int p \<or> int h > NUMBERS_DRAWN \<or> int p - int h > NUMBERS_NOT_DRAWN)"
    using assms by (simp add: NUMBERS_DRAWN_def NUMBERS_NOT_DRAWN_def TOTAL_NUMBERS_def)
  show ?thesis
    unfolding calculateProbability_def calculateProbability_with_def
    using guard n1 n2 n3 m d
    by (simp add: NUMBERS_DRAWN_def NUMBERS_NOT_DRAWN_def TOTAL_NUMBERS_def spec_probability_def)
qed

lemma spec_probability_bounds:
  assumes "h \<le> p" and "p \<le> 10"
  shows "1 / 2 ^ 53 \<le> spec_probability p h" and "spec_probability p h \<le> 1"
proof -
  note b = ways_bounds [OF assms]
  let ?n = "(20 choose h) * (60 choose (p - h))" and ?c3 = "80 choose p"
  have c3pos: "0 < ?c3" using b(1) b(3) by linarith
  have "(of_nat ?c3 :: rat) \<le> of_nat 1646492110120" using b(2) by (simp only: of_nat_le_iff)
  also have "\<dots> \<le> 2 ^ 53" by simp
  finally have c3: "(of_nat ?c3 :: rat) \<le> 2 ^ 53" .
  have "(1::rat) \<le> of_nat ?n" using b(3) by (metis of_nat_1 of_nat_le_iff Suc_leI One_nat_def)
  then have "1 / 2 ^ 53 \<le> (of_nat ?n :: rat) / 2 ^ 53" by (simp add: divide_right_mono)
  also have "\<dots> \<le> of_nat ?n / of_nat ?c3"
    using c3 c3pos by (intro divide_left_mono) simp_all
  finally show "1 / 2 ^ 53 \<le> spec_probability p h" by (simp add: spec_probability_def)
  have "(of_nat ?n :: rat) \<le> of_nat ?c3" using b(1) by (simp only: of_nat_le_iff)
  then show "spec_probability p h \<le> 1" using c3pos by (simp add: spec_probability_def)
qed

lemma spec_probability_rounded:
  assumes "h \<le> p" and "p \<le> 10"
  shows "\<bar>round_mag (spec_probability p h) - spec_probability p h\<bar> \<le> spec_probability p h / 2 ^ 53"
    and "0 < round_mag (spec_probability p h)"
    and "round_mag (spec_probability p h) \<le> 1"
proof -
  note q = spec_probability_bounds [OF assms]
  have "pow2 (- 1022) \<le> 1 / 2 ^ 53"
    using pow2_mono [of "- 1022" "- 53"] by (simp add: pow2_neg)
  then have "pow2 (- 1022) \<le> spec_probability p h" using q(1) by simp
  then show e: "\<bar>round_mag (spec_probability p h) - spec_probability p h\<bar> \<le> spec_probability p h / 2 ^ 53"
    by (rule round_mag_err)
  have qpos: "0 < spec_probability p h" using q(1) by (simp add: less_le_trans [OF _ q(1)])
  have "spec_probability p h / 2 ^ 53 < spec_probability p h" using qpos by simp
  then show "0 < round_mag (spec_probability p h)" using e by linarith
  show "round_mag (spec_probability p h) \<le> 1" using q(2) by (rule round_mag_le_1)
qed

lemma round_mag_dyadic:
  assumes "pow2 E \<le> a" and "a < pow2 (E + 1)"
    and "a = of_int n * pow2 (max E (- 1022) - 52)"
  shows "round_mag a = a"
proof -
  have "round_mag a = of_int n * pow2 (max E (- 1022) - 52)"
    using assms(1,2) refl
  proof (rule round_mag_eqI)
    show "\<bar>a - of_int n * pow2 (max E (- 1022) - 52)\<bar> < pow2 (max E (- 1022) - 52) / 2"
      using assms(3) pow2_pos [of "max E (- 1022) - 52"] by simp
  qed
  then show ?thesis using assms(3) by simp
qed

lemma spec_probability_1_0: "spec_probability 1 0 = 3 / 4"
  by (simp add: spec_probability_def)

lemma spec_probability_1_1: "spec_probability 1 1 = 1 / 4"
  by (simp add: spec_probability_def)

lemma round_mag_three_quarters: "round_mag (3 / 4) = 3 / 4"
  by (rule round_mag_dyadic [where E = "- 1" and n = "3 * 2 ^ 51"]) (simp_all add: pow2_def power_int_minus)

lemma round_mag_quarter: "round_mag (1 / 4) = 1 / 4"
  by (rule round_mag_dyadic [where E = "- 2" and n = "2 ^ 52"]) (simp_all add: pow2_def power_int_minus)

lemma spec_probability_sum:
  assumes "p \<le> 10"
  shows "(\<Sum>h\<le>p. spec_probability p h) = 1"
proof -
  have pos: "0 < 80 choose p" using assms by simp
  have "(\<Sum>h\<le>p. spec_probability p h)
      = of_nat (\<Sum>h\<le>p. (20 choose h) * (60 choose (p - h))) / of_nat (80 choose p)"
    by (simp add: spec_probability_def sum_divide_distrib)
  also have "(\<Sum>h\<le>p. (20 choose h) * (60 choose (p - h))) = (20 + 60) choose p"
    by (rule vandermonde)
  finally show ?thesis using pos by simp
qed

text \<open>
  C3. For every \<open>picks\<close> in 1..10 and every \<open>hits\<close> in 0..\<open>picks\<close> (no guard applies
  there), \<open>calculateProbability\<close> returns the Number division of the exact integer
  \<open>C(20, hits) * C(60, picks - hits)\<close> by the exact integer \<open>C(80, picks)\<close>: the binary64
  value nearest to the quotient of the formula, within a relative error of \<open>2^-53\<close> of it,
  and in [0, 1]. For one pick the values are exact: 0.75 for no hit and 0.25 for one hit.
\<close>

theorem calculateProbability_formula:
  assumes "1 \<le> picks" and "picks \<le> 10" and "0 \<le> hits" and "hits \<le> picks"
  shows "calculateProbability picks hits
           = Inr (Fin (round_mag (spec_probability (nat picks) (nat hits)))) \<and>
         \<bar>round_mag (spec_probability (nat picks) (nat hits)) - spec_probability (nat picks) (nat hits)\<bar>
           \<le> spec_probability (nat picks) (nat hits) / 2 ^ 53 \<and>
         0 \<le> round_mag (spec_probability (nat picks) (nat hits)) \<and>
         round_mag (spec_probability (nat picks) (nat hits)) \<le> 1 \<and>
         calculateProbability 1 0 = Inr (Fin (3 / 4)) \<and>
         calculateProbability 1 1 = Inr (Fin (1 / 4))"
proof -
  have hp: "nat hits \<le> nat picks" "nat picks \<le> 10" using assms by simp_all
  have "calculateProbability (int (nat picks)) (int (nat hits))
      = Inr (Fin (round_mag (spec_probability (nat picks) (nat hits))))"
    using hp by (rule calculateProbability_value)
  then have v: "calculateProbability picks hits
      = Inr (Fin (round_mag (spec_probability (nat picks) (nat hits))))"
    using assms by simp
  have "calculateProbability (int 1) (int 0) = Inr (Fin (round_mag (spec_probability 1 0)))"
    by (rule calculateProbability_value) simp_all
  then have e0: "calculateProbability 1 0 = Inr (Fin (3 / 4))"
    by (simp only: spec_probability_1_0 round_mag_three_quarters of_nat_1 of_nat_0)
  have "calculateProbability (int 1) (int 1) = Inr (Fin (round_mag (spec_probability 1 1)))"
    by (rule calculateProbability_value) simp_all
  then have e1: "calculateProbability 1 1 = Inr (Fin (1 / 4))"
    by (simp only: spec_probability_1_1 round_mag_quarter of_nat_1)
  show ?thesis
    using v e0 e1 spec_probability_rounded [OF hp] by simp
qed

theorem calculateProbability_formula_witness:
  "(1::int) \<le> 2 \<and> (2::int) \<le> 10 \<and> (0::int) \<le> 0 \<and> (0::int) \<le> 2 \<and>
   calculateProbability 2 0 = Inr (Fin (round_mag (spec_probability 2 0))) \<and>
   \<bar>round_mag (spec_probability 2 0) - spec_probability 2 0\<bar> \<le> spec_probability 2 0 / 2 ^ 53 \<and>
   round_mag (spec_probability 2 0) \<le> 1"
  using calculateProbability_formula [of 2 0] by simp

lemma js_add_pos:
  assumes "0 \<le> a" and "pow2 (- 1022) \<le> b" and "a + b \<le> 2"
  shows "\<exists>s. js_add (Fin a) (Fin b) = Fin s \<and> 0 \<le> s \<and> \<bar>s - (a + b)\<bar> \<le> 1 / 2 ^ 52"
proof -
  have bpos: "0 < b" using assms(2) pow2_pos [of "- 1022"] by simp
  then have pos: "0 < a + b" using assms(1) by simp
  have lo: "pow2 (- 1022) \<le> a + b" using assms(1,2) by simp
  have "\<bar>round_mag (a + b) - (a + b)\<bar> \<le> (a + b) / 2 ^ 53" using lo by (rule round_mag_err)
  also have "\<dots> \<le> 2 / 2 ^ 53" using assms(3) by (simp add: divide_right_mono)
  also have "\<dots> = 1 / 2 ^ 52" by simp
  finally have e: "\<bar>round_mag (a + b) - (a + b)\<bar> \<le> 1 / 2 ^ 52" .
  have "(1::rat) / 2 ^ 52 \<le> 1" by simp
  then have "round_mag (a + b) \<le> 3" using e assms(3) by linarith
  also have "(3::rat) < 2 ^ 1024" by simp
  finally have "mk_double False (a + b) = Fin (round_mag (a + b))" by (rule mk_double_False)
  then have "js_add (Fin a) (Fin b) = Fin (round_mag (a + b))"
    using pos by (simp add: js_add_def Let_def)
  then show ?thesis using e round_mag_nonneg [of "a + b"] by blast
qed

lemma foldl_js_add_bound:
  assumes "\<And>x. x \<in> set xs \<Longrightarrow> pow2 (- 1022) \<le> x"
    and "0 \<le> a" and "\<bar>a - A\<bar> \<le> of_nat n / 2 ^ 52"
    and "A + sum_list xs \<le> 3 / 2" and "n + length xs \<le> 2 ^ 51"
  shows "\<exists>s. foldl js_add (Fin a) (map Fin xs) = Fin s \<and> 0 \<le> s \<and>
           \<bar>s - (A + sum_list xs)\<bar> \<le> of_nat (n + length xs) / 2 ^ 52"
  using assms
proof (induction xs arbitrary: a A n)
  case Nil
  then show ?case by simp
next
  case (Cons x xs)
  have xlo: "pow2 (- 1022) \<le> x" using Cons.prems(1) by simp
  have xs_nonneg: "0 \<le> sum_list xs"
  proof (rule sum_list_nonneg)
    fix y assume "y \<in> set xs"
    then have "pow2 (- 1022) \<le> y" using Cons.prems(1) by simp
    then show "0 \<le> y" using pow2_pos [of "- 1022"] by linarith
  qed
  have "of_nat n \<le> (2 ^ 51 :: rat)"
    using Cons.prems(5) by (metis add_leE of_nat_le_iff of_nat_numeral of_nat_power)
  then have nb: "(of_nat n :: rat) / 2 ^ 52 \<le> 1 / 2" by simp
  have "a \<le> A + of_nat n / 2 ^ 52" using Cons.prems(3) by linarith
  moreover have "A + x \<le> 3 / 2" using Cons.prems(4) xs_nonneg by simp
  ultimately have ax: "a + x \<le> 2" using nb by linarith
  obtain s1 where s1: "js_add (Fin a) (Fin x) = Fin s1" "0 \<le> s1" "\<bar>s1 - (a + x)\<bar> \<le> 1 / 2 ^ 52"
    using js_add_pos [OF Cons.prems(2) xlo ax] by blast
  have "\<bar>s1 - (A + x)\<bar> \<le> \<bar>s1 - (a + x)\<bar> + \<bar>a - A\<bar>" by linarith
  also have "\<dots> \<le> 1 / 2 ^ 52 + of_nat n / 2 ^ 52" using s1(3) Cons.prems(3) by linarith
  also have "\<dots> = of_nat (Suc n) / 2 ^ 52" by (simp add: add_divide_distrib)
  finally have e1: "\<bar>s1 - (A + x)\<bar> \<le> of_nat (Suc n) / 2 ^ 52" .
  have "\<exists>s. foldl js_add (Fin s1) (map Fin xs) = Fin s \<and> 0 \<le> s \<and>
           \<bar>s - ((A + x) + sum_list xs)\<bar> \<le> of_nat (Suc n + length xs) / 2 ^ 52"
  proof (rule Cons.IH [OF _ s1(2) e1])
    show "\<And>y. y \<in> set xs \<Longrightarrow> pow2 (- 1022) \<le> y" using Cons.prems(1) by simp
    show "A + x + sum_list xs \<le> 3 / 2" using Cons.prems(4) by (simp add: add.assoc)
    show "Suc n + length xs \<le> 2 ^ 51" using Cons.prems(5) by simp
  qed
  then show ?case using s1(1) by (simp add: add.assoc)
qed

lemma spec_probability_rounded_lower:
  assumes "h \<le> p" and "p \<le> 10"
  shows "pow2 (- 1022) \<le> round_mag (spec_probability p h)"
proof -
  note q = spec_probability_bounds [OF assms]
  note r = spec_probability_rounded(1) [OF assms]
  have "spec_probability p h / 2 ^ 53 \<le> spec_probability p h / 2"
    using q(1) by (intro divide_left_mono) simp_all
  then have "spec_probability p h / 2 \<le> round_mag (spec_probability p h)"
    using r by linarith
  moreover have "1 / 2 ^ 54 \<le> spec_probability p h / 2" using q(1) by simp
  moreover have "pow2 (- 1022) \<le> 1 / 2 ^ 54"
    using pow2_mono [of "- 1022" "- 54"] by (simp add: pow2_neg)
  ultimately show ?thesis by linarith
qed

lemma rounded_sum_near_one:
  assumes "p \<le> 10"
  shows "\<bar>(\<Sum>h\<le>p. round_mag (spec_probability p h)) - 1\<bar> \<le> 1 / 2 ^ 53"
proof -
  let ?r = "\<lambda>h. round_mag (spec_probability p h)"
  have "(\<Sum>h\<le>p. ?r h) - 1 = (\<Sum>h\<le>p. ?r h - spec_probability p h)"
    by (simp add: sum_subtractf spec_probability_sum [OF assms])
  also have "\<bar>\<dots>\<bar> \<le> (\<Sum>h\<le>p. \<bar>?r h - spec_probability p h\<bar>)"
    by (rule sum_abs)
  also have "\<dots> \<le> (\<Sum>h\<le>p. spec_probability p h / 2 ^ 53)"
    using assms by (intro sum_mono spec_probability_rounded(1)) simp_all
  also have "\<dots> = 1 / 2 ^ 53"
    by (simp add: sum_divide_distrib [symmetric] spec_probability_sum [OF assms])
  finally show ?thesis .
qed

lemma number_sum_near_one:
  assumes "p \<le> 10"
  shows "\<exists>s. foldl js_add (Fin 0) (map (\<lambda>h. Fin (round_mag (spec_probability p h))) [0..<Suc p]) = Fin s \<and>
           \<bar>s - 1\<bar> \<le> 1 / 10 ^ 9"
proof -
  let ?r = "\<lambda>h. round_mag (spec_probability p h)"
  let ?xs = "map ?r [0..<Suc p]"
  have sum: "sum_list ?xs = (\<Sum>h\<le>p. ?r h)"
    by (simp add: interv_sum_list_conv_sum_set_nat atMost_atLeast0 atLeastLessThanSuc_atLeastAtMost
        del: upt_Suc)
  note near = rounded_sum_near_one [OF assms]
  have "\<exists>s. foldl js_add (Fin 0) (map Fin ?xs) = Fin s \<and> 0 \<le> s \<and>
           \<bar>s - (0 + sum_list ?xs)\<bar> \<le> of_nat (0 + length ?xs) / 2 ^ 52"
  proof (rule foldl_js_add_bound)
    fix x assume "x \<in> set ?xs"
    then obtain h where "h \<le> p" "x = ?r h" by (auto simp: less_Suc_eq_le simp del: upt_Suc)
    then show "pow2 (- 1022) \<le> x" using spec_probability_rounded_lower [OF _ assms] by simp
  next
    have "(1::rat) / 2 ^ 53 \<le> 1 / 2" by simp
    then show "0 + sum_list ?xs \<le> 3 / 2" using near unfolding sum by linarith
    show "0 + length ?xs \<le> 2 ^ 51" using assms by simp
  qed simp_all
  then obtain s where s: "foldl js_add (Fin 0) (map Fin ?xs) = Fin s"
    "\<bar>s - sum_list ?xs\<bar> \<le> of_nat (Suc p) / 2 ^ 52"
    by auto
  have "(of_nat (Suc p) :: rat) \<le> 11" using assms by simp
  then have "(of_nat (Suc p) :: rat) / 2 ^ 52 \<le> 11 / 2 ^ 52" by (simp add: divide_right_mono)
  then have "\<bar>s - 1\<bar> \<le> 11 / 2 ^ 52 + 1 / 2 ^ 53" using s(2) near unfolding sum by linarith
  also have "\<dots> \<le> 1 / 10 ^ 9" by simp
  finally have "\<bar>s - 1\<bar> \<le> 1 / 10 ^ 9" .
  moreover have "map Fin ?xs = map (\<lambda>h. Fin (?r h)) [0..<Suc p]" by simp
  ultimately show ?thesis using s(1) by (simp only:) blast
qed

text \<open>
  C5. For every \<open>picks\<close> in 1..10 the values that \<open>calculateProbability\<close> returns for
  \<open>hits\<close> in 0..\<open>picks\<close> are finite Numbers whose sum is within \<open>1e-9\<close> of 1: the exact sum
  of the returned values (the exact quotients sum to 1 by Vandermonde's identity, each
  returned value is within \<open>2^-53\<close> of its quotient), and also their Number sum, added from 0
  in ascending \<open>hits\<close> with a rounding at each addition.
\<close>

theorem probabilities_sum_to_one:
  assumes "1 \<le> p" and "p \<le> 10"
  shows "\<exists>f. (\<forall>h\<le>p. calculateProbability (int p) (int h) = Inr (Fin (f h))) \<and>
             \<bar>(\<Sum>h\<le>p. f h) - 1\<bar> \<le> 1 / 10 ^ 9 \<and>
             (\<exists>s. foldl js_add (Fin 0) (map (\<lambda>h. Fin (f h)) [0..<Suc p]) = Fin s \<and>
                  \<bar>s - 1\<bar> \<le> 1 / 10 ^ 9)"
proof -
  let ?f = "\<lambda>h. round_mag (spec_probability p h)"
  have pv: "\<forall>h\<le>p. calculateProbability (int p) (int h) = Inr (Fin (?f h))"
    using assms(2) by (auto intro: calculateProbability_value)
  have "\<bar>(\<Sum>h\<le>p. ?f h) - 1\<bar> \<le> 1 / 2 ^ 53"
    using assms(2) by (rule rounded_sum_near_one)
  also have "(1::rat) / 2 ^ 53 \<le> 1 / 10 ^ 9" by simp
  finally have es: "\<bar>(\<Sum>h\<le>p. ?f h) - 1\<bar> \<le> 1 / 10 ^ 9" .
  have ns: "\<exists>s. foldl js_add (Fin 0) (map (\<lambda>h. Fin (?f h)) [0..<Suc p]) = Fin s \<and>
        \<bar>s - 1\<bar> \<le> 1 / 10 ^ 9"
    using assms(2) by (rule number_sum_near_one)
  show ?thesis
    by (intro exI [of _ ?f] conjI) (rule pv, rule es, rule ns)
qed

theorem probabilities_sum_to_one_witness:
  "(1::nat) \<le> 1 \<and> (1::nat) \<le> 10 \<and>
   (\<exists>a b s. calculateProbability 1 0 = Inr (Fin a) \<and> calculateProbability 1 1 = Inr (Fin b) \<and>
      \<bar>a + b - 1\<bar> \<le> 1 / 10 ^ 9 \<and>
      js_add (js_add (Fin 0) (Fin a)) (Fin b) = Fin s \<and> \<bar>s - 1\<bar> \<le> 1 / 10 ^ 9)"
proof -
  from probabilities_sum_to_one [of 1]
  obtain f s where f: "\<forall>h\<le>1. calculateProbability (int 1) (int h) = Inr (Fin (f h))"
    and e: "\<bar>(\<Sum>h\<le>1. f h) - 1\<bar> \<le> 1 / 10 ^ 9"
    and s: "foldl js_add (Fin 0) (map (\<lambda>h. Fin (f h)) [0..<Suc 1]) = Fin s"
      "\<bar>s - 1\<bar> \<le> 1 / 10 ^ 9"
    by auto
  have "calculateProbability 1 0 = Inr (Fin (f 0))" using f [rule_format, of 0] by simp
  moreover have "calculateProbability 1 1 = Inr (Fin (f 1))" using f [rule_format, of 1] by simp
  moreover have "(\<Sum>h\<le>1. f h) = f 0 + f 1"
    by (simp add: atMost_Suc numeral_eq_Suc)
  moreover have "js_add (js_add (Fin 0) (Fin (f 0))) (Fin (f 1)) = Fin s"
    using s(1) by simp
  ultimately show ?thesis using e s(2) by auto
qed

text \<open>
  C2, as amended. \<open>binomial(n, k)\<close> returns 0 if \<open>k < 0\<close> or \<open>k > n\<close>, 1 if \<open>k = 0\<close> or
  \<open>k = n\<close> (for \<open>n \<ge> 0\<close>), and otherwise \<open>Number(C(n, k))\<close>: the exact integer
  \<open>C(n, k)\<close>, computed without loss in BigInt, converted to the nearest binary64 value.
  The result is \<open>C(n, k)\<close> itself whenever \<open>C(n, k) \<le> 2^53\<close>; in particular
  \<open>binomial(80, 10) = 1646492110120\<close>.
\<close>

theorem binomial_js_value:
  "(k < 0 \<or> n < k \<longrightarrow> binomial_js n k = Inr (Fin 0)) \<and>
   (0 \<le> n \<and> (k = 0 \<or> k = n) \<longrightarrow> binomial_js n k = Inr (Fin 1)) \<and>
   (0 \<le> k \<and> k \<le> n \<longrightarrow>
      binomial_js n k = Inr (Number_of_BigInt (int (nat n choose nat k)))) \<and>
   (0 \<le> k \<and> k \<le> n \<and> nat n choose nat k \<le> 2 ^ 53 \<longrightarrow>
      binomial_js n k = Inr (Fin (of_nat (nat n choose nat k)))) \<and>
   binomial_js 80 10 = Inr (Fin 1646492110120)"
proof -
  have a: "binomial_js n k = Inr (Number_of_BigInt (int (nat n choose nat k)))"
    if "0 \<le> k" "k \<le> n"
    using binomial_js_nat [of "nat n" "nat k"] that by simp
  have b: "binomial_js n k = Inr (Fin (of_nat (nat n choose nat k)))"
    if "0 \<le> k" "k \<le> n" "nat n choose nat k \<le> 2 ^ 53"
  proof -
    have "int (nat n choose nat k) \<le> 2 ^ 53"
      using that(3) by (metis of_nat_le_iff of_nat_numeral of_nat_power)
    then show ?thesis using a [OF that(1,2)] by (simp add: Number_of_BigInt_exact)
  qed
  show ?thesis
    using a b binomial_js_80_10 by (auto simp: binomial_js_def)
qed

theorem binomial_js_value_witness:
  "binomial_js 5 (- 1) = Inr (Fin 0) \<and> binomial_js 5 0 = Inr (Fin 1) \<and>
   binomial_js 5 5 = Inr (Fin 1) \<and>
   binomial_js 57 25 = Inr (Number_of_BigInt (int (57 choose 25))) \<and>
   binomial_js 5 2 = Inr (Fin (of_nat (5 choose 2)))"
proof -
  have "(5 choose 2 :: nat) \<le> 2 ^ 5" by (rule binomial_le_pow2)
  also have "(2 ^ 5 :: nat) \<le> 2 ^ 53" by simp
  finally have le: "nat 5 choose nat 2 \<le> 2 ^ 53" by simp
  have 1: "binomial_js 5 (- 1) = Inr (Fin 0)"
    using binomial_js_value [of "- 1" 5] by simp
  have 2: "binomial_js 5 0 = Inr (Fin 1)"
    using binomial_js_value [of 0 5] by simp
  have 3: "binomial_js 5 5 = Inr (Fin 1)"
    using binomial_js_value [of 5 5] by simp
  have 4: "binomial_js 57 25 = Inr (Number_of_BigInt (int (57 choose 25)))"
    using binomial_js_value [of 25 57] by simp
  have "0 \<le> (2::int) \<and> (2::int) \<le> 5 \<and> nat 5 choose nat 2 \<le> 2 ^ 53"
    using le by simp
  with binomial_js_value [of 2 5]
  have "binomial_js 5 2 = Inr (Fin (of_nat (nat 5 choose nat 2)))" by blast
  then have 5: "binomial_js 5 2 = Inr (Fin (of_nat (5 choose 2)))" by simp
  from 1 2 3 4 5 show ?thesis by blast
qed

text \<open>
  C2 as stated fails: \<open>C(57, 25) = 9929472283517787\<close> is odd and above \<open>2^53\<close>, and
  \<open>binomial(57, 25)\<close> returns the Number 9929472283517788.
\<close>

theorem binomial_js_precision_counterexample:
  "binomial_js 57 25 = Inr (Fin 9929472283517788) \<and> (57 choose 25 :: nat) = 9929472283517787"
  using binomial_js_57_25 choose_57_25 by simp

text \<open>
  C10. For every \<open>picks\<close> in 1..10 and every \<open>hits \<ge> 0\<close> the divisor \<open>C(80, picks)\<close> that
  \<open>calculateProbability\<close> computes is a Number of value at least 1, and the function returns
  a finite Number in [0, 1] (never NaN, never an infinity, no exception): 0 from the guard when
  \<open>hits > picks\<close>, a positive quotient otherwise.
\<close>

theorem calculateProbability_finite:
  assumes "1 \<le> picks" and "picks \<le> 10" and "0 \<le> hits"
  shows "\<exists>c r. binomial_js TOTAL_NUMBERS picks = Inr (Fin c) \<and> 1 \<le> c \<and>
           calculateProbability picks hits = Inr (Fin r) \<and> 0 \<le> r \<and> r \<le> 1 \<and>
           (if picks < hits then r = 0 else 0 < r)"
proof -
  let ?p = "nat picks"
  have p: "?p \<le> 10" "int ?p = picks" using assms by simp_all
  have "(80 choose ?p) \<le> 1646492110120" using ways_bounds(2) [of 0 ?p] p by simp
  then have "int (80 choose ?p) \<le> 2 ^ 53" by simp
  then have c: "binomial_js TOTAL_NUMBERS picks = Inr (Fin (of_nat (80 choose ?p)))"
    using binomial_js_nat [of 80 ?p] p by (simp add: TOTAL_NUMBERS_def Number_of_BigInt_exact)
  have cpos: "(1::rat) \<le> of_nat (80 choose ?p)"
    using p(1) by (simp add: Suc_le_eq)
  show ?thesis
  proof (cases "picks < hits")
    case True
    then have "calculateProbability picks hits = Inr (Fin 0)"
      by (simp add: calculateProbability_def calculateProbability_with_def)
    with c cpos True show ?thesis by auto
  next
    case False
    let ?h = "nat hits"
    have h: "?h \<le> ?p" "int ?h = hits" using assms False by simp_all
    have "calculateProbability picks hits = Inr (Fin (round_mag (spec_probability ?p ?h)))"
      using calculateProbability_value [OF h(1) p(1)] p h by simp
    with c cpos False spec_probability_rounded(2,3) [OF h(1) p(1)] show ?thesis
      by (auto intro: less_imp_le)
  qed
qed

theorem calculateProbability_finite_witness:
  "(1::int) \<le> 3 \<and> (3::int) \<le> 10 \<and> (0::int) \<le> 7 \<and>
   (\<exists>c r. binomial_js TOTAL_NUMBERS 3 = Inr (Fin c) \<and> 1 \<le> c \<and>
       calculateProbability 3 7 = Inr (Fin r) \<and> r = 0)"
  using calculateProbability_finite [of 3 7] by auto

section \<open>The loops of analyzeKeno\<close>

lemma factorial_pos: "1 \<le> factorial n"
proof (cases "n \<le> 1")
  case True
  then show ?thesis by (simp add: factorial_def)
next
  case False
  then have "factorial (int (nat n)) = int (fact (nat n))" by (simp only: factorial_fact)
  moreover have "int (nat n) = n" using False by simp
  moreover have "(1::int) \<le> int (fact (nat n))" by (simp add: Suc_le_eq)
  ultimately show ?thesis by simp
qed

lemma binomial_js_total: "\<exists>v. binomial_js n k = Inr v"
proof -
  have "factorial m \<noteq> 0" for m using factorial_pos [of m] by simp
  then show ?thesis by (simp add: binomial_js_def bigint_div_def Let_def)
qed

lemma calculateProbability_total: "\<exists>v. calculateProbability picks hits = Inr v"
proof -
  obtain a b c where "binomial_js NUMBERS_DRAWN hits = Inr a"
    "binomial_js NUMBERS_NOT_DRAWN (picks - hits) = Inr b"
    "binomial_js TOTAL_NUMBERS picks = Inr c"
    using binomial_js_total by meson
  then show ?thesis
    by (simp add: calculateProbability_def calculateProbability_with_def)
qed

lemma summary_hits_loop_foldl:
  assumes prob: "\<And>h. calculateProbability picks h = Inr (prob h)"
  shows "summary_hits_loop payouts picks hits st =
    Inr (foldl (\<lambda>(tev, maxp, best) h.
          (js_add tev (js_mul (prob h) (lookup_payout payouts picks h)),
           (if js_gt (lookup_payout payouts picks h) maxp then lookup_payout payouts picks h else maxp),
           (if js_gt (lookup_payout payouts picks h) (Fin 0) then js_add best (prob h) else best)))
        st [hits..picks])"
proof (induction "nat (picks + 1 - hits)" arbitrary: hits st)
  case 0
  then have "\<not> hits \<le> picks" by simp
  then show ?case by (cases st) (simp add: summary_hits_loop.simps)
next
  case (Suc d)
  then have le: "hits \<le> picks" and d: "d = nat (picks + 1 - (hits + 1))" by simp_all
  obtain tev maxp best where st: "st = (tev, maxp, best)" by (cases st)
  show ?case
    unfolding st
    by (subst summary_hits_loop.simps, subst upto_rec1 [OF le])
      (simp add: le prob Let_def Suc.hyps(1) [OF d])
qed

lemma detail_hits_loop_foldl:
  assumes prob: "\<And>h. calculateProbability picks h = Inr (prob h)"
  shows "detail_hits_loop payouts picks hits st =
    Inr (foldl (\<lambda>(tev, hap, rs) h.
          (js_add tev (js_mul (prob h) (lookup_payout payouts picks h)),
           (if js_gt (lookup_payout payouts picks h) (Fin 0) then True else hap),
           rs @ [\<lparr>row_hits = h, probability = prob h, odds = probabilityToOdds (prob h),
                   payout = lookup_payout payouts picks h,
                   evContribution = js_mul (prob h) (lookup_payout payouts picks h)\<rparr>]))
        st [hits..picks])"
proof (induction "nat (picks + 1 - hits)" arbitrary: hits st)
  case 0
  then have "\<not> hits \<le> picks" by simp
  then show ?case by (cases st) (simp add: detail_hits_loop.simps)
next
  case (Suc d)
  then have le: "hits \<le> picks" and d: "d = nat (picks + 1 - (hits + 1))" by simp_all
  obtain tev hap rs where st: "st = (tev, hap, rs)" by (cases st)
  show ?case
    unfolding st
    by (subst detail_hits_loop.simps, subst upto_rec1 [OF le])
      (simp add: le prob Let_def Suc.hyps(1) [OF d])
qed

lemma foldl_summary_fst:
  "fst (foldl (\<lambda>(tev, maxp, best) h. (js_add tev (f h), g maxp h, k best h)) st xs)
     = foldl js_add (fst st) (map f xs)"
  by (induction xs arbitrary: st) (auto simp: case_prod_beta)

lemma detail_picks_loop_total:
  assumes "\<And>p. \<exists>d. detail_for payouts p = Inr d"
  shows "\<exists>ds. detail_picks_loop payouts picks acc = Inr ds"
proof (induction "nat (11 - picks)" arbitrary: picks acc)
  case 0
  then show ?case by (simp add: detail_picks_loop.simps)
next
  case (Suc n)
  then have le: "picks \<le> 10" and n: "n = nat (11 - (picks + 1))" by simp_all
  obtain d where d: "detail_for payouts picks = Inr d" using assms by blast
  show ?case
    by (subst detail_picks_loop.simps) (simp add: le d Suc.hyps(1) [OF n])
qed

lemma summary_picks_loop_total:
  assumes "\<And>p. \<exists>d. summary_for payouts p = Inr d"
  shows "\<exists>ds. summary_picks_loop payouts picks acc = Inr ds"
proof (induction "nat (11 - picks)" arbitrary: picks acc)
  case 0
  then show ?case by (simp add: summary_picks_loop.simps)
next
  case (Suc n)
  then have le: "picks \<le> 10" and n: "n = nat (11 - (picks + 1))" by simp_all
  obtain d where d: "summary_for payouts picks = Inr d" using assms by blast
  show ?case
    by (subst summary_picks_loop.simps) (simp add: le d Suc.hyps(1) [OF n])
qed

lemma prob_function: "\<exists>prob. \<forall>h. calculateProbability picks h = Inr (prob h)"
  using calculateProbability_total by metis

lemma summary_for_total: "\<exists>s. summary_for payouts picks = Inr s"
proof -
  obtain prob where "\<And>h. calculateProbability picks h = Inr (prob h)"
    using prob_function by blast
  from summary_hits_loop_foldl [of picks prob, OF this] show ?thesis
    by (simp add: summary_for_def split: prod.splits)
qed

lemma detail_for_total: "\<exists>s. detail_for payouts picks = Inr s"
proof -
  obtain prob where "\<And>h. calculateProbability picks h = Inr (prob h)"
    using prob_function by blast
  from detail_hits_loop_foldl [of picks prob, OF this] show ?thesis
    by (simp add: detail_for_def split: prod.splits)
qed

lemma analyzeKeno_total: "\<exists>res. analyzeKeno payouts = Inr res"
proof -
  obtain ds where "detail_picks_loop payouts 1 [] = Inr ds"
    using detail_picks_loop_total [of payouts 1 "[]"] detail_for_total by blast
  moreover obtain ss where "summary_picks_loop payouts 1 [] = Inr ss"
    using summary_picks_loop_total [of payouts 1 "[]"] summary_for_total by blast
  ultimately show ?thesis by (simp add: analyzeKeno_def)
qed

lemma js_mul_zero: "0 \<le> r \<Longrightarrow> js_mul (Fin r) (Fin 0) = Fin 0"
  by (simp add: js_mul_def mk_double_def round_mag_def)

lemma js_add_zero: "js_add (Fin 0) (Fin 0) = Fin 0"
  by (simp add: js_add_def)

lemma js_sub_one_zero: "js_sub (Fin 1) (Fin 0) = Fin 1"
  using round_mag_int [of 1] by (simp add: js_sub_def js_add_def mk_double_def)

lemma js_mul_one_hundred: "js_mul (Fin 1) (Fin 100) = Fin 100"
  using js_mul_exact [of 1 100] by simp

lemma js_mul_zero_hundred: "js_mul (Fin 0) (Fin 100) = Fin 0"
  by (simp add: js_mul_def mk_double_def round_mag_def)

lemma lookup_payout_no_row: "payouts picks = None \<Longrightarrow> lookup_payout payouts picks hits = Fin 0"
  by (simp add: lookup_payout_def)

lemma lookup_payout_no_entry:
  "payouts picks = Some row \<Longrightarrow> row hits = None \<Longrightarrow> lookup_payout payouts picks hits = Fin 0"
  by (simp add: lookup_payout_def)

lemma prob_in_range:
  assumes "1 \<le> picks" and "picks \<le> 10" and "0 \<le> h" and "h \<le> picks"
  shows "calculateProbability picks h = Inr (Fin (round_mag (spec_probability (nat picks) (nat h))))"
  using calculateProbability_value [of "nat h" "nat picks"] assms by simp

lemma foldl_summary_no_row:
  assumes "\<And>h. h \<in> set xs \<Longrightarrow> \<exists>r. prob h = Fin r \<and> 0 \<le> r"
  shows "foldl (\<lambda>(tev, maxp, best) h.
          (js_add tev (js_mul (prob h) (Fin 0)),
           (if js_gt (Fin 0) maxp then Fin 0 else maxp),
           (if js_gt (Fin 0) (Fin 0) then js_add best (prob h) else best)))
        (Fin 0, Fin 0, Fin 0) xs = (Fin 0, Fin 0, Fin 0)"
  using assms
proof (induction xs)
  case Nil
  then show ?case by simp
next
  case (Cons x xs)
  obtain r where "prob x = Fin r" "0 \<le> r" using Cons.prems [of x] by auto
  then show ?case using Cons by (simp add: js_mul_zero js_add_zero)
qed

lemma foldl_detail_no_row:
  assumes "\<And>h. h \<in> set xs \<Longrightarrow> \<exists>r. prob h = Fin r \<and> 0 \<le> r"
  shows "\<exists>rs'. foldl (\<lambda>(tev, hap, rs) h.
          (js_add tev (js_mul (prob h) (Fin 0)),
           (if js_gt (Fin 0) (Fin 0) then True else hap),
           rs @ [g h]))
        (Fin 0, False, rs) xs = (Fin 0, False, rs')"
  using assms
proof (induction xs arbitrary: rs)
  case Nil
  then show ?case by simp
next
  case (Cons x xs)
  obtain r where "prob x = Fin r" "0 \<le> r" using Cons.prems [of x] by auto
  then show ?case using Cons by (simp add: js_mul_zero js_add_zero)
qed

lemma prob_nonneg_in_range:
  assumes "1 \<le> picks" and "picks \<le> 10"
    and prob: "\<And>h. calculateProbability picks h = Inr (prob h)"
    and "h \<in> set [0..picks]"
  shows "\<exists>r. prob h = Fin r \<and> 0 \<le> r"
proof -
  have h: "0 \<le> h" "h \<le> picks" using assms(4) by simp_all
  have "prob h = Fin (round_mag (spec_probability (nat picks) (nat h)))"
    using prob_in_range [OF assms(1,2) h] prob [of h] by simp
  then show ?thesis using round_mag_nonneg by blast
qed

lemma summary_for_no_row:
  assumes "1 \<le> picks" and "picks \<le> 10" and "payouts picks = None"
  shows "summary_for payouts picks =
    Inr \<lparr>summary_picks = picks, totalEV = Fin 0, summary_houseEdge = Fin 100,
         summary_rtp = Fin 0, maxPayout = Fin 0, bestWinOdds = Fin 0,
         winOddsStr = ''1 in Infinity''\<rparr>"
proof -
  obtain prob where prob: "\<And>h. calculateProbability picks h = Inr (prob h)"
    using prob_function by blast
  have lp: "\<And>h. lookup_payout payouts picks h = Fin 0"
    using assms(3) by (simp add: lookup_payout_def)
  have "summary_hits_loop payouts picks 0 (Fin 0, Fin 0, Fin 0) = Inr (Fin 0, Fin 0, Fin 0)"
    unfolding summary_hits_loop_foldl [of picks prob, OF prob] lp
    by (rule arg_cong [where f = Inr], rule foldl_summary_no_row,
        rule prob_nonneg_in_range [OF assms(1,2) prob])
  moreover have "js_div (Fin 1) (Fin 0) = PInf"
    by (simp add: js_div_def js_inf_def)
  ultimately show ?thesis
    by (simp add: summary_for_def js_sub_one_zero js_mul_one_hundred js_mul_zero_hundred
        toFixed_def)
qed

lemma detail_for_no_row:
  assumes "1 \<le> picks" and "picks \<le> 10" and "payouts picks = None"
  shows "\<exists>rs. detail_for payouts picks =
    Inr \<lparr>detail_picks = picks, rows = rs, totalExpectedValue = Fin 0, hasAnyPayout = False,
         houseEdge = Fin 100, rtp = Fin 0\<rparr>"
proof -
  obtain prob where prob: "\<And>h. calculateProbability picks h = Inr (prob h)"
    using prob_function by blast
  have lp: "\<And>h. lookup_payout payouts picks h = Fin 0"
    using assms(3) by (simp add: lookup_payout_def)
  have "\<exists>rs. foldl (\<lambda>(tev, hap, rs) h.
          (js_add tev (js_mul (prob h) (Fin 0)),
           (if js_gt (Fin 0) (Fin 0) then True else hap),
           rs @ [\<lparr>row_hits = h, probability = prob h, odds = probabilityToOdds (prob h),
                   payout = Fin 0, evContribution = js_mul (prob h) (Fin 0)\<rparr>]))
        (Fin 0, False, []) [0..picks] = (Fin 0, False, rs)"
    by (rule foldl_detail_no_row, rule prob_nonneg_in_range [OF assms(1,2) prob])
  then have "\<exists>rs. detail_hits_loop payouts picks 0 (Fin 0, False, []) = Inr (Fin 0, False, rs)"
    unfolding detail_hits_loop_foldl [of picks prob, OF prob] lp by simp
  then show ?thesis
    by (auto simp: detail_for_def js_sub_one_zero js_mul_one_hundred js_mul_zero_hundred)
qed

text \<open>
  C8. A payout-table entry that is absent is the multiplier 0: the lookup returns the Number 0
  when the table has no row for \<open>picks\<close>, and when the row has no entry for \<open>hits\<close>. For a
  pick count in 1..10 without a row both tables of \<open>analyzeKeno\<close> get expected value 0, RTP 0
  and house edge 100 (percent), and \<open>analyzeKeno\<close> returns without an exception.
\<close>

theorem no_table_row_defaults:
  assumes "1 \<le> picks" and "picks \<le> 10" and "payouts picks = None"
  shows "lookup_payout payouts picks hits = Fin 0 \<and>
         lookup_payout (payouts(picks \<mapsto> row(hits := None))) picks hits = Fin 0 \<and>
         (\<exists>s d res.
            summary_for payouts picks = Inr s \<and> totalEV s = Fin 0 \<and> summary_rtp s = Fin 0 \<and>
            summary_houseEdge s = Fin 100 \<and> maxPayout s = Fin 0 \<and>
            detail_for payouts picks = Inr d \<and> totalExpectedValue d = Fin 0 \<and> rtp d = Fin 0 \<and>
            houseEdge d = Fin 100 \<and> hasAnyPayout d = False \<and>
            analyzeKeno payouts = Inr res)"
proof -
  obtain rs where d: "detail_for payouts picks =
      Inr \<lparr>detail_picks = picks, rows = rs, totalExpectedValue = Fin 0, hasAnyPayout = False,
           houseEdge = Fin 100, rtp = Fin 0\<rparr>"
    using detail_for_no_row [where payouts = payouts and picks = picks, OF assms] by blast
  obtain res where "analyzeKeno payouts = Inr res" using analyzeKeno_total by blast
  then show ?thesis
    using summary_for_no_row [where payouts = payouts and picks = picks, OF assms] d
    using assms(3) by (simp add: lookup_payout_def)
qed

theorem no_table_row_defaults_witness:
  "(1::int) \<le> 3 \<and> (3::int) \<le> 10 \<and> (Map.empty :: payout_table) 3 = None \<and>
   lookup_payout Map.empty 3 2 = Fin 0 \<and>
   (\<exists>s d res. summary_for Map.empty 3 = Inr s \<and> totalEV s = Fin 0 \<and> summary_rtp s = Fin 0 \<and>
      summary_houseEdge s = Fin 100 \<and>
      detail_for Map.empty 3 = Inr d \<and> totalExpectedValue d = Fin 0 \<and> rtp d = Fin 0 \<and>
      houseEdge d = Fin 100 \<and> analyzeKeno Map.empty = Inr res)"
  using no_table_row_defaults [where picks = 3 and payouts = Map.empty and hits = 2 and row = Map.empty]
  by auto

text \<open>
  C1, on the code: for the empty payout table the summary line of one pick has the combined
  win probability 0 and prints its odds as \<open>1 in Infinity\<close>: the line divides 1 by 0 and
  formats the quotient with \<open>toFixed\<close>; it has no case for a zero probability, as
  \<open>probabilityToOdds\<close> has.
\<close>

theorem summary_of_empty_table:
  "summary_for Map.empty 1 =
     Inr \<lparr>summary_picks = 1, totalEV = Fin 0, summary_houseEdge = Fin 100,
          summary_rtp = Fin 0, maxPayout = Fin 0, bestWinOdds = Fin 0,
          winOddsStr = ''1 in Infinity''\<rparr>"
  using summary_for_no_row [where picks = 1 and payouts = Map.empty] by simp

section \<open>Worked values: the payout 3.8 on one pick, the odds of ten hits\<close>

lemma mk_double_nearest:
  assumes "pow2 E \<le> a" and "a < pow2 (E + 1)"
    and "u = pow2 (max E (- 1022) - 52)"
    and "\<bar>a - of_int n * u\<bar> < u / 2"
    and "of_int n * u < 2 ^ 1024" and "0 < n"
  shows "mk_double neg a = Fin (if neg then - (of_int n * u) else of_int n * u)"
proof -
  have r: "round_mag a = of_int n * u" using assms(1-4) by (rule round_mag_eqI)
  have "0 < u" using assms(3) by (simp add: pow2_pos)
  then have "0 < of_int n * u" using assms(6) by simp
  then show ?thesis using r assms(5) by (auto simp: mk_double_def Let_def)
qed

lemma parse_3_8: "mk_double False (38 / 10) = Fin (4278419646001971 / 1125899906842624)"
  using mk_double_nearest [where E = 1 and n = 8556839292003942 and a = "38 / 10" and neg = False
      and u = "1 / 2 ^ 51"]
  by (simp add: pow2_def power_int_minus)

lemma number_0_95: "mk_double False (95 / 100) = Fin (4278419646001971 / 4503599627370496)"
  using mk_double_nearest [where E = "- 1" and n = 8556839292003942 and a = "95 / 100" and neg = False
      and u = "1 / 2 ^ 53"]
  by (simp add: pow2_def power_int_minus)

lemma ev_3_8: "js_mul (Fin (1 / 4)) (Fin (4278419646001971 / 1125899906842624))
    = Fin (4278419646001971 / 4503599627370496)"
  using mk_double_nearest [where E = "- 1" and n = 8556839292003942
      and a = "4278419646001971 / 4503599627370496" and neg = False and u = "1 / 2 ^ 53"]
  by (simp add: js_mul_def pow2_def power_int_minus)

lemma ev_0: "js_mul (Fin (3 / 4)) (Fin 0) = Fin 0"
  by (rule js_mul_zero) simp

lemma total_3_8: "js_add (Fin 0) (Fin (4278419646001971 / 4503599627370496))
    = Fin (4278419646001971 / 4503599627370496)"
  using mk_double_nearest [where E = "- 1" and n = 8556839292003942
      and a = "4278419646001971 / 4503599627370496" and neg = False and u = "1 / 2 ^ 53"]
  by (simp add: js_add_def pow2_def power_int_minus)

lemma edge_3_8: "js_sub (Fin 1) (Fin (4278419646001971 / 4503599627370496))
    = Fin (225179981368525 / 4503599627370496)"
  using mk_double_nearest [where E = "- 5" and n = 7205759403792800
      and a = "225179981368525 / 4503599627370496" and neg = False and u = "1 / 2 ^ 57"]
  by (simp add: js_sub_def js_add_def pow2_def power_int_minus)

lemma edge_percent_3_8: "js_mul (Fin (225179981368525 / 4503599627370496)) (Fin 100)
    = Fin (5629499534213125 / 1125899906842624)"
  using mk_double_nearest [where E = 2 and n = 5629499534213125
      and a = "5629499534213125 / 1125899906842624" and neg = False and u = "1 / 2 ^ 50"]
  by (simp add: js_mul_def pow2_def power_int_minus)

lemma rtp_percent_3_8: "js_mul (Fin (4278419646001971 / 4503599627370496)) (Fin 100) = Fin 95"
  using mk_double_nearest [where E = 6 and n = 6685030696878080
      and a = "4278419646001971 / 4503599627370496 * 100" and neg = False and u = "1 / 2 ^ 46"]
  by (simp add: js_mul_def pow2_def power_int_minus)

lemma toFixed_nonneg:
  assumes "0 \<le> r" and "r < 10 ^ 21"
    and "of_int n \<le> r * 10 ^ f + 1 / 2" and "r * 10 ^ f + 1 / 2 < of_int n + 1"
  shows "toFixed f (Fin r) = fixed_digits f n"
proof -
  have "\<lfloor>r * 10 ^ f + 1 / 2\<rfloor> = n" using assms(3,4) by (simp add: floor_eq_iff)
  then have "\<lfloor>\<bar>r\<bar> * 10 ^ f + 1 / 2\<rfloor> = n" using assms(1) by (simp add: abs_of_nonneg)
  then show ?thesis using assms(1,2) by (simp add: toFixed_def abs_of_nonneg not_le)
qed

lemma toFixed_ev: "toFixed 6 (Fin (4278419646001971 / 4503599627370496)) = ''0.950000''"
proof -
  have "toFixed 6 (Fin (4278419646001971 / 4503599627370496)) = fixed_digits 6 950000"
    by (rule toFixed_nonneg) simp_all
  also have "\<dots> = ''0.950000''"
    by (simp add: fixed_digits_def pad_left_def decimal_digits.simps digit_char_def)
  finally show ?thesis .
qed

lemma toFixed_edge: "toFixed 2 (Fin (5629499534213125 / 1125899906842624)) = ''5.00''"
proof -
  have "toFixed 2 (Fin (5629499534213125 / 1125899906842624)) = fixed_digits 2 500"
    by (rule toFixed_nonneg) simp_all
  also have "\<dots> = ''5.00''"
    by (simp add: fixed_digits_def pad_left_def decimal_digits.simps digit_char_def)
  finally show ?thesis .
qed

lemma toFixed_rtp: "toFixed 2 (Fin 95) = ''95.00''"
proof -
  have "toFixed 2 (Fin 95) = fixed_digits 2 9500"
    by (rule toFixed_nonneg) simp_all
  also have "\<dots> = ''95.00''"
    by (simp add: fixed_digits_def pad_left_def decimal_digits.simps digit_char_def)
  finally show ?thesis .
qed

lemma calculateProbability_1_0: "calculateProbability 1 0 = Inr (Fin (3 / 4))"
proof -
  have "calculateProbability (int 1) (int 0) = Inr (Fin (round_mag (spec_probability 1 0)))"
    by (rule calculateProbability_value) simp_all
  then show ?thesis
    by (simp only: spec_probability_1_0 round_mag_three_quarters of_nat_1 of_nat_0)
qed

lemma calculateProbability_1_1: "calculateProbability 1 1 = Inr (Fin (1 / 4))"
proof -
  have "calculateProbability (int 1) (int 1) = Inr (Fin (round_mag (spec_probability 1 1)))"
    by (rule calculateProbability_value) simp_all
  then show ?thesis
    by (simp only: spec_probability_1_1 round_mag_quarter of_nat_1)
qed

lemma total_ev_formula:
  assumes "1 \<le> picks" and "picks \<le> 10"
    and prob: "\<And>h. calculateProbability picks h = Inr (prob h)"
  shows "foldl js_add (Fin 0) (map (\<lambda>h. js_mul (prob h) (lookup_payout payouts picks h)) [0..picks])
    = foldl js_add (Fin 0)
        (map (\<lambda>h. js_mul (Fin (round_mag (spec_probability (nat picks) (nat h))))
                (lookup_payout payouts picks h)) [0..picks])"
proof -
  have "prob h = Fin (round_mag (spec_probability (nat picks) (nat h)))" if "h \<in> set [0..picks]" for h
  proof -
    have h: "0 \<le> h" "h \<le> picks" using that by simp_all
    show ?thesis using prob_in_range [OF assms(1,2) h] prob [of h] by simp
  qed
  then have "map (\<lambda>h. js_mul (prob h) (lookup_payout payouts picks h)) [0..picks]
      = map (\<lambda>h. js_mul (Fin (round_mag (spec_probability (nat picks) (nat h))))
                (lookup_payout payouts picks h)) [0..picks]"
    by (intro map_cong) simp_all
  then show ?thesis by (rule arg_cong)
qed

lemma foldl_fst_step:
  assumes "\<And>st h. fst (step st h) = js_add (fst st) (f h)"
  shows "fst (foldl step st xs) = foldl js_add (fst st) (map f xs)"
  by (induction xs arbitrary: st) (simp_all add: assms)

lemma summary_for_metrics:
  assumes "1 \<le> picks" and "picks \<le> 10"
  shows "\<exists>s. summary_for payouts picks = Inr s \<and>
    totalEV s = foldl js_add (Fin 0)
        (map (\<lambda>h. js_mul (Fin (round_mag (spec_probability (nat picks) (nat h))))
                (lookup_payout payouts picks h)) [0..picks]) \<and>
    summary_houseEdge s = js_mul (js_sub (Fin 1) (totalEV s)) (Fin 100) \<and>
    summary_rtp s = js_mul (totalEV s) (Fin 100)"
proof -
  obtain prob where prob: "\<And>h. calculateProbability picks h = Inr (prob h)"
    using prob_function by blast
  let ?step = "\<lambda>(tev, maxp, best) h.
          (js_add tev (js_mul (prob h) (lookup_payout payouts picks h)),
           (if js_gt (lookup_payout payouts picks h) maxp then lookup_payout payouts picks h else maxp),
           (if js_gt (lookup_payout payouts picks h) (Fin 0) then js_add best (prob h) else best))"
  obtain tev maxp best where st: "foldl ?step (Fin 0, Fin 0, Fin 0) [0..picks] = (tev, maxp, best)"
    by (cases "foldl ?step (Fin 0, Fin 0, Fin 0) [0..picks]")
  have "fst (foldl ?step (Fin 0, Fin 0, Fin 0) [0..picks])
      = foldl js_add (Fin 0)
          (map (\<lambda>h. js_mul (prob h) (lookup_payout payouts picks h)) [0..picks])"
    using foldl_fst_step [where step = ?step and st = "(Fin 0, Fin 0, Fin 0)" and xs = "[0..picks]"
        and f = "\<lambda>h. js_mul (prob h) (lookup_payout payouts picks h)"]
    by (simp add: case_prod_beta)
  then have tev: "tev = foldl js_add (Fin 0)
        (map (\<lambda>h. js_mul (Fin (round_mag (spec_probability (nat picks) (nat h))))
                (lookup_payout payouts picks h)) [0..picks])"
    using st total_ev_formula [OF assms prob, of payouts] by simp
  show ?thesis
    unfolding summary_for_def summary_hits_loop_foldl [of picks prob, OF prob] st
    using tev by simp
qed

lemma detail_for_metrics:
  assumes "1 \<le> picks" and "picks \<le> 10"
  shows "\<exists>d. detail_for payouts picks = Inr d \<and>
    totalExpectedValue d = foldl js_add (Fin 0)
        (map (\<lambda>h. js_mul (Fin (round_mag (spec_probability (nat picks) (nat h))))
                (lookup_payout payouts picks h)) [0..picks]) \<and>
    houseEdge d = js_mul (js_sub (Fin 1) (totalExpectedValue d)) (Fin 100) \<and>
    rtp d = js_mul (totalExpectedValue d) (Fin 100)"
proof -
  obtain prob where prob: "\<And>h. calculateProbability picks h = Inr (prob h)"
    using prob_function by blast
  let ?step = "\<lambda>(tev, hap, rs) h.
          (js_add tev (js_mul (prob h) (lookup_payout payouts picks h)),
           (if js_gt (lookup_payout payouts picks h) (Fin 0) then True else hap),
           rs @ [\<lparr>row_hits = h, probability = prob h, odds = probabilityToOdds (prob h),
                   payout = lookup_payout payouts picks h,
                   evContribution = js_mul (prob h) (lookup_payout payouts picks h)\<rparr>])"
  obtain tev hap rs where st: "foldl ?step (Fin 0, False, []) [0..picks] = (tev, hap, rs)"
    by (cases "foldl ?step (Fin 0, False, []) [0..picks]")
  have "fst (foldl ?step (Fin 0, False, []) [0..picks])
      = foldl js_add (Fin 0)
          (map (\<lambda>h. js_mul (prob h) (lookup_payout payouts picks h)) [0..picks])"
    using foldl_fst_step [where step = ?step and st = "(Fin 0, False, [])" and xs = "[0..picks]"
        and f = "\<lambda>h. js_mul (prob h) (lookup_payout payouts picks h)"]
    by (simp add: case_prod_beta)
  then have tev: "tev = foldl js_add (Fin 0)
        (map (\<lambda>h. js_mul (Fin (round_mag (spec_probability (nat picks) (nat h))))
                (lookup_payout payouts picks h)) [0..picks])"
    using st total_ev_formula [OF assms prob, of payouts] by simp
  show ?thesis
    unfolding detail_for_def detail_hits_loop_foldl [of picks prob, OF prob] st
    using tev by simp
qed

lemma upto_0_1: "[0..1] = [0, 1::int]"
  by (simp add: upto.simps)

lemma total_ev_example:
  "foldl js_add (Fin 0)
     (map (\<lambda>h. js_mul (Fin (round_mag (spec_probability (nat 1) (nat h))))
             (lookup_payout [1 \<mapsto> [1 \<mapsto> mk_double False (38 / 10)]] 1 h)) [0..1])
   = Fin (4278419646001971 / 4503599627370496)"
proof -
  have l0: "lookup_payout [1 \<mapsto> [1 \<mapsto> mk_double False (38 / 10)]] 1 0 = Fin 0"
    by (simp add: lookup_payout_def)
  have l1: "lookup_payout [1 \<mapsto> [1 \<mapsto> mk_double False (38 / 10)]] 1 1
      = Fin (4278419646001971 / 1125899906842624)"
    using parse_3_8 by (simp add: lookup_payout_def truthy_def)
  have n: "nat 1 = 1" "nat 0 = 0" by simp_all
  have p0: "round_mag (spec_probability (nat 1) (nat 0)) = 3 / 4"
    by (simp only: n spec_probability_1_0 round_mag_three_quarters)
  have p1: "round_mag (spec_probability (nat 1) (nat 1)) = 1 / 4"
    by (simp only: n spec_probability_1_1 round_mag_quarter)
  show ?thesis
    unfolding upto_0_1
    by (simp only: list.map foldl.simps l0 l1 p0 p1 ev_0 ev_3_8 js_add_zero total_3_8)
qed

lemma choose_20_10: "(20 choose 10 :: nat) = 184756"
proof -
  have "int (fact 10 * (20 choose 10)) = numerator_loop 0 (int 10) (int 20) 1"
    by (rule numerator_loop_choose [symmetric]) simp
  also have "\<dots> = 184756 * int (fact 10)"
    by (simp add: numerator_loop.simps fact_numeral)
  finally have "int (20 choose 10) * int (fact 10) = 184756 * int (fact 10)"
    by (simp add: mult.commute)
  then have "int (20 choose 10) = 184756"
    by (simp only: mult_cancel_right) simp
  then show ?thesis by linarith
qed

lemma spec_probability_10_10: "spec_probability 10 10 = 184756 / 1646492110120"
  by (simp add: spec_probability_def choose_20_10 choose_80_10)

lemma round_mag_10_10:
  "round_mag (184756 / 1646492110120) = 8478491080973117 / 75557863725914323419136"
  using round_mag_eqI [where E = "- 24" and n = 8478491080973117
      and a = "184756 / 1646492110120" and u = "1 / 2 ^ 76"]
  by (simp add: pow2_def power_int_minus)

lemma calculateProbability_10_10:
  "calculateProbability 10 10 = Inr (Fin (8478491080973117 / 75557863725914323419136))"
proof -
  have "calculateProbability (int 10) (int 10) = Inr (Fin (round_mag (spec_probability 10 10)))"
    by (rule calculateProbability_value) simp_all
  then show ?thesis
    by (simp only: spec_probability_10_10 round_mag_10_10 of_nat_numeral)
qed

lemma odds_10_10:
  "js_div (Fin 1) (Fin (8478491080973117 / 75557863725914323419136))
     = Fin (4784438506792357 / 536870912)"
  using mk_double_nearest [where E = 23 and n = 4784438506792357
      and a = "75557863725914323419136 / 8478491080973117" and neg = False and u = "1 / 2 ^ 29"]
  by (simp add: js_div_def pow2_def power_int_minus)

lemma example_table_metrics:
  "\<exists>s d. summary_for [1 \<mapsto> [1 \<mapsto> mk_double False (38 / 10)]] 1 = Inr s \<and>
     detail_for [1 \<mapsto> [1 \<mapsto> mk_double False (38 / 10)]] 1 = Inr d \<and>
     totalEV s = mk_double False (95 / 100) \<and>
     totalExpectedValue d = mk_double False (95 / 100) \<and>
     summary_houseEdge s = Fin (5 + 5 / 2 ^ 50) \<and> houseEdge d = Fin (5 + 5 / 2 ^ 50) \<and>
     summary_rtp s = Fin 95 \<and> rtp d = Fin 95 \<and>
     toFixed 6 (totalEV s) = ''0.950000'' \<and>
     toFixed 2 (summary_houseEdge s) = ''5.00'' \<and>
     toFixed 2 (summary_rtp s) = ''95.00''"
proof -
  let ?T = "[1 \<mapsto> [1 \<mapsto> mk_double False (38 / 10)]] :: payout_table"
  let ?ev = "Fin (4278419646001971 / 4503599627370496)"
  obtain s where s: "summary_for ?T 1 = Inr s"
    "totalEV s = foldl js_add (Fin 0)
        (map (\<lambda>h. js_mul (Fin (round_mag (spec_probability (nat 1) (nat h))))
                (lookup_payout ?T 1 h)) [0..1])"
    "summary_houseEdge s = js_mul (js_sub (Fin 1) (totalEV s)) (Fin 100)"
    "summary_rtp s = js_mul (totalEV s) (Fin 100)"
    using summary_for_metrics [of 1 ?T] by force
  obtain d where d: "detail_for ?T 1 = Inr d"
    "totalExpectedValue d = foldl js_add (Fin 0)
        (map (\<lambda>h. js_mul (Fin (round_mag (spec_probability (nat 1) (nat h))))
                (lookup_payout ?T 1 h)) [0..1])"
    "houseEdge d = js_mul (js_sub (Fin 1) (totalExpectedValue d)) (Fin 100)"
    "rtp d = js_mul (totalExpectedValue d) (Fin 100)"
    using detail_for_metrics [of 1 ?T] by force
  have ev: "totalEV s = ?ev" "totalExpectedValue d = ?ev"
    using s(2) d(2) by (simp_all only: total_ev_example)
  have five: "Fin (5629499534213125 / 1125899906842624) = Fin (5 + 5 / 2 ^ 50)" by simp
  have n95: "mk_double False (95 / 100) = ?ev" by (rule number_0_95)
  have he: "summary_houseEdge s = Fin (5629499534213125 / 1125899906842624)"
    "houseEdge d = Fin (5629499534213125 / 1125899906842624)"
    using s(3) d(3) by (simp_all only: ev edge_3_8 edge_percent_3_8)
  have rt: "summary_rtp s = Fin 95" "rtp d = Fin 95"
    using s(4) d(4) by (simp_all only: ev rtp_percent_3_8)
  have "toFixed 2 (summary_houseEdge s) = ''5.00''" by (simp only: he toFixed_edge)
  moreover have "toFixed 2 (summary_rtp s) = ''95.00''" by (simp only: rt toFixed_rtp)
  moreover have "toFixed 6 (totalEV s) = ''0.950000''" by (simp only: ev toFixed_ev)
  moreover have "summary_houseEdge s = Fin (5 + 5 / 2 ^ 50)" "houseEdge d = Fin (5 + 5 / 2 ^ 50)"
    using he by (simp_all only: five)
  moreover have "totalEV s = mk_double False (95 / 100)"
    "totalExpectedValue d = mk_double False (95 / 100)"
    by (simp_all only: ev n95)
  ultimately show ?thesis
    using s(1) d(1) rt by blast
qed

text \<open>
  C7. For every \<open>picks\<close> in 1..10 and every payout table both loops of \<open>analyzeKeno\<close> return,
  and the expected value of each is the Number sum, from 0 and in ascending \<open>hits\<close>, of
  probability times multiplier over \<open>hits\<close> in 0..\<open>picks\<close>; the house edge is
  \<open>(1 - totalEV) * 100\<close> and the RTP is \<open>totalEV * 100\<close>, both in percent. For the table that
  pays 3.8 on one hit of one pick the expected value is the Number 0.95, printed 0.950000, the
  RTP is 95, printed 95.00, and the house edge is \<open>5 + 5 * 2^-50\<close>, printed 5.00.
\<close>

theorem pick_summary_metrics:
  assumes "1 \<le> picks" and "picks \<le> 10"
  shows "(\<exists>s d. summary_for payouts picks = Inr s \<and> detail_for payouts picks = Inr d \<and>
      totalEV s = foldl js_add (Fin 0)
        (map (\<lambda>hits. js_mul (Fin (round_mag (spec_probability (nat picks) (nat hits))))
                (lookup_payout payouts picks hits)) [0..picks]) \<and>
      totalExpectedValue d = totalEV s \<and>
      summary_houseEdge s = js_mul (js_sub (Fin 1) (totalEV s)) (Fin 100) \<and>
      summary_rtp s = js_mul (totalEV s) (Fin 100) \<and>
      houseEdge d = summary_houseEdge s \<and> rtp d = summary_rtp s) \<and>
    (\<exists>s d. summary_for [1 \<mapsto> [1 \<mapsto> mk_double False (38 / 10)]] 1 = Inr s \<and>
      detail_for [1 \<mapsto> [1 \<mapsto> mk_double False (38 / 10)]] 1 = Inr d \<and>
      totalEV s = mk_double False (95 / 100) \<and>
      totalExpectedValue d = mk_double False (95 / 100) \<and>
      summary_houseEdge s = Fin (5 + 5 / 2 ^ 50) \<and> houseEdge d = Fin (5 + 5 / 2 ^ 50) \<and>
      summary_rtp s = Fin 95 \<and> rtp d = Fin 95 \<and>
      toFixed 6 (totalEV s) = ''0.950000'' \<and>
      toFixed 2 (summary_houseEdge s) = ''5.00'' \<and>
      toFixed 2 (summary_rtp s) = ''95.00'')"
proof -
  obtain s where s: "summary_for payouts picks = Inr s"
    "totalEV s = foldl js_add (Fin 0)
        (map (\<lambda>h. js_mul (Fin (round_mag (spec_probability (nat picks) (nat h))))
                (lookup_payout payouts picks h)) [0..picks])"
    "summary_houseEdge s = js_mul (js_sub (Fin 1) (totalEV s)) (Fin 100)"
    "summary_rtp s = js_mul (totalEV s) (Fin 100)"
    using summary_for_metrics [OF assms, of payouts] by blast
  obtain d where d: "detail_for payouts picks = Inr d"
    "totalExpectedValue d = foldl js_add (Fin 0)
        (map (\<lambda>h. js_mul (Fin (round_mag (spec_probability (nat picks) (nat h))))
                (lookup_payout payouts picks h)) [0..picks])"
    "houseEdge d = js_mul (js_sub (Fin 1) (totalExpectedValue d)) (Fin 100)"
    "rtp d = js_mul (totalExpectedValue d) (Fin 100)"
    using detail_for_metrics [OF assms, of payouts] by blast
  have "\<exists>s d. summary_for payouts picks = Inr s \<and> detail_for payouts picks = Inr d \<and>
      totalEV s = foldl js_add (Fin 0)
        (map (\<lambda>hits. js_mul (Fin (round_mag (spec_probability (nat picks) (nat hits))))
                (lookup_payout payouts picks hits)) [0..picks]) \<and>
      totalExpectedValue d = totalEV s \<and>
      summary_houseEdge s = js_mul (js_sub (Fin 1) (totalEV s)) (Fin 100) \<and>
      summary_rtp s = js_mul (totalEV s) (Fin 100) \<and>
      houseEdge d = summary_houseEdge s \<and> rtp d = summary_rtp s"
    using s d by (intro exI [of _ s] exI [of _ d]) simp
  then show ?thesis using example_table_metrics by blast
qed

theorem pick_summary_metrics_witness:
  "(1::int) \<le> 1 \<and> (1::int) \<le> 10 \<and>
   (\<exists>s d. summary_for [1 \<mapsto> [1 \<mapsto> mk_double False (38 / 10)]] 1 = Inr s \<and>
      detail_for [1 \<mapsto> [1 \<mapsto> mk_double False (38 / 10)]] 1 = Inr d \<and>
      totalEV s = foldl js_add (Fin 0)
        (map (\<lambda>hits. js_mul (Fin (round_mag (spec_probability (nat 1) (nat hits))))
                (lookup_payout [1 \<mapsto> [1 \<mapsto> mk_double False (38 / 10)]] 1 hits)) [0..1]) \<and>
      totalExpectedValue d = totalEV s \<and>
      summary_houseEdge s = js_mul (js_sub (Fin 1) (totalEV s)) (Fin 100) \<and>
      summary_rtp s = js_mul (totalEV s) (Fin 100))"
proof -
  have le: "(1::int) \<le> 1" "(1::int) \<le> 10" by simp_all
  from pick_summary_metrics [OF le, of "[1 \<mapsto> [1 \<mapsto> mk_double False (38 / 10)]]"]
  show ?thesis using le by blast
qed

section \<open>Symmetry of the coefficient, the guards of the probability\<close>

text \<open>
  C9. For all integers \<open>n\<close> and \<open>k\<close> with \<open>0 \<le> k \<le> n\<close>, \<open>binomial(n, k)\<close> and
  \<open>binomial(n, n - k)\<close> return the same Number: both calls take the smaller of \<open>k\<close> and
  \<open>n - k\<close> before they multiply.
\<close>

theorem binomial_symmetry:
  "0 \<le> k \<Longrightarrow> k \<le> n \<Longrightarrow> binomial_js n k = binomial_js n (n - k)"
  by (auto simp: binomial_js_def Let_def)

theorem binomial_symmetry_witness:
  "(0::int) \<le> 4 \<and> (4::int) \<le> 10 \<and> binomial_js 10 4 = binomial_js 10 (10 - 4)"
  using binomial_symmetry [of 4 10] by simp

text \<open>
  C4. For any integers \<open>picks\<close> and \<open>hits\<close>, \<open>calculateProbability\<close> returns exactly 0 when
  \<open>hits > picks\<close>, \<open>hits > 20\<close> or \<open>picks - hits > 60\<close>, and it does so without a call of
  \<open>binomial\<close>: the result is the same whatever function stands for \<open>binomial\<close>, also one
  that always throws.
\<close>

theorem calculateProbability_guard:
  "hits > picks \<or> hits > 20 \<or> picks - hits > 60 \<Longrightarrow>
   calculateProbability picks hits = Inr (Fin 0) \<and>
   calculateProbability_with (\<lambda>n k. Inl RangeError) picks hits = Inr (Fin 0) \<and>
   calculateProbability_with bin picks hits = Inr (Fin 0)"
  by (auto simp: calculateProbability_def calculateProbability_with_def
      NUMBERS_DRAWN_def NUMBERS_NOT_DRAWN_def TOTAL_NUMBERS_def)

theorem calculateProbability_guard_witness:
  "((21::int) > 25 \<or> (21::int) > 20 \<or> (25::int) - 21 > 60) \<and>
   calculateProbability 25 21 = Inr (Fin 0) \<and>
   calculateProbability_with (\<lambda>n k. Inl RangeError) 25 21 = Inr (Fin 0) \<and>
   calculateProbability_with binomial_js 25 21 = Inr (Fin 0)"
  using calculateProbability_guard [of 25 21 binomial_js] by simp

section \<open>The odds descriptor\<close>

subsection \<open>Decimals that convert back to a Number\<close>

lemma round_mag_err_abs:
  assumes "0 < a"
  shows "\<bar>round_mag a - a\<bar> \<le> a / 2 ^ 53 + 1 / 2 ^ 1075"
proof (cases "pow2 (- 1022) \<le> a")
  case True
  then have "\<bar>round_mag a - a\<bar> \<le> a / 2 ^ 53" by (rule round_mag_err)
  then show ?thesis by (simp add: add_increasing2)
next
  case False
  let ?e = "ilog2 a"
  have "pow2 ?e \<le> a" using ilog2_bounds [OF assms] by simp
  then have "pow2 ?e < pow2 (- 1022)" using False by simp
  then have "?e < - 1022" by (rule pow2_less_cancel)
  then have ulp: "ulp_of a = pow2 (- 1074)" by (simp add: ulp_of_def max_def)
  let ?u = "pow2 (- 1074)"
  have upos: "0 < ?u" by (rule pow2_pos)
  have "\<bar>of_int (round_half_even (a / ?u)) - a / ?u\<bar> * ?u \<le> (1 / 2) * ?u"
    using round_half_even_err [of "a / ?u"] upos by (simp only: mult_right_mono less_imp_le)
  moreover have "of_int (round_half_even (a / ?u)) * ?u - a
      = (of_int (round_half_even (a / ?u)) - a / ?u) * ?u"
    using upos by (simp add: field_simps)
  then have "\<bar>of_int (round_half_even (a / ?u)) * ?u - a\<bar>
      = \<bar>of_int (round_half_even (a / ?u)) - a / ?u\<bar> * \<bar>?u\<bar>"
    by (simp only: abs_mult)
  ultimately have "\<bar>round_mag a - a\<bar> \<le> ?u / 2"
    using assms ulp upos by (simp add: round_mag_def abs_of_pos)
  also have "?u / 2 = 1 / 2 ^ 1075" by (simp add: pow2_neg)
  finally have "\<bar>round_mag a - a\<bar> \<le> 1 / 2 ^ 1075" .
  moreover have "0 \<le> a / 2 ^ 53" using assms by simp
  ultimately show ?thesis by linarith
qed

lemma round_mag_idem:
  assumes "pow2 (- 1022) \<le> a"
  shows "round_mag (round_mag a) = round_mag a"
proof -
  have apos: "0 < a" using assms pow2_pos [of "- 1022"] by simp
  let ?e = "ilog2 a"
  have b: "pow2 ?e \<le> a" "a < pow2 (?e + 1)"
    using ilog2_bounds [OF apos] by simp_all
  have "pow2 (- 1022) < pow2 (?e + 1)" using assms b(2) by simp
  then have e: "- 1022 \<le> ?e" by (auto dest: pow2_less_cancel)
  then have ulp: "ulp_of a = pow2 (?e - 52)" by (simp add: ulp_of_def max_def)
  let ?u = "pow2 (?e - 52)"
  let ?m = "round_half_even (a / ?u)"
  have upos: "0 < ?u" by (rule pow2_pos)
  have r: "round_mag a = of_int ?m * ?u" using apos ulp by (simp add: round_mag_def)
  have p52: "pow2 52 = 2 ^ 52" and p53: "pow2 53 = 2 ^ 53" by (simp_all add: pow2_def)
  have "pow2 ?e = pow2 (52 + (?e - 52))" by (rule arg_cong [where f = pow2]) simp
  then have pe: "pow2 ?e = 2 ^ 52 * ?u" by (simp only: pow2_add p52)
  have "pow2 (?e + 1) = pow2 (53 + (?e - 52))" by (rule arg_cong [where f = pow2]) simp
  then have pe1: "pow2 (?e + 1) = 2 ^ 53 * ?u" by (simp only: pow2_add p53)
  have "of_int (2 ^ 52) \<le> a / ?u" using b(1) upos by (simp add: pe pos_le_divide_eq)
  then have lo: "2 ^ 52 \<le> ?m" by (rule round_half_even_ge)
  have "a / ?u \<le> of_int (2 ^ 53)" using b(2) upos by (simp add: pe1 pos_divide_le_eq less_imp_le)
  then have hi: "?m \<le> 2 ^ 53" by (rule round_half_even_le)
  show ?thesis
  proof (cases "?m = 2 ^ 53")
    case True
    then have v: "round_mag a = pow2 (?e + 1)" using r pe1 by simp
    have "round_mag (pow2 (?e + 1)) = pow2 (?e + 1)"
    proof (rule round_mag_dyadic [where E = "?e + 1" and n = "2 ^ 52"])
      show "pow2 (?e + 1) \<le> pow2 (?e + 1)" by simp
      show "pow2 (?e + 1) < pow2 (?e + 1 + 1)" by (rule pow2_strict_mono) simp
      have "max (?e + 1) (- 1022) - 52 = ?e - 51" using e by simp
      moreover have "pow2 (?e + 1) = pow2 (52 + (?e - 51))"
        by (rule arg_cong [where f = pow2]) simp
      ultimately show "pow2 (?e + 1) = of_int (2 ^ 52) * pow2 (max (?e + 1) (- 1022) - 52)"
        by (simp only: pow2_add p52) simp
    qed
    then show ?thesis by (simp only: v)
  next
    case False
    with hi have "?m < 2 ^ 53" by simp
    then have "(of_int ?m :: rat) < of_int (2 ^ 53)" by (simp only: of_int_less_iff)
    then have up: "of_int ?m * ?u < pow2 (?e + 1)" using upos by (simp add: pe1)
    have "(of_int (2 ^ 52) :: rat) \<le> of_int ?m" using lo by (simp only: of_int_le_iff)
    then have dn: "pow2 ?e \<le> of_int ?m * ?u" using upos by (simp add: pe)
    have "round_mag (of_int ?m * ?u) = of_int ?m * ?u"
      using dn up
    proof (rule round_mag_dyadic [where n = ?m])
      show "of_int ?m * ?u = of_int ?m * pow2 (max ?e (- 1022) - 52)"
        using e by (simp add: max_def)
    qed
    then show ?thesis by (simp only: r)
  qed
qed

lemma shortest_from_roundtrip:
  assumes "mk_double False x = Fin x"
  shows "mk_double False (shortest_from x e k) = Fin x"
proof (induction "18 - k" arbitrary: k)
  case 0
  then have "17 < k" by simp
  then show ?case using assms by (subst shortest_from.simps) simp
next
  case (Suc d)
  then have d: "d = 18 - Suc k" by simp
  show ?case
    using assms Suc.hyps(1) [OF d]
    by (subst shortest_from.simps) (auto simp: Let_def)
qed

lemma shortest_value_roundtrip:
  assumes "mk_double False x = Fin x"
  shows "mk_double False (shortest_value x) = Fin x"
proof (cases "x = 0")
  case True
  then show ?thesis by (simp add: shortest_value_def mk_double_def round_mag_def)
next
  case False
  then show ?thesis
    using shortest_from_roundtrip [OF assms] by (simp add: shortest_value_def)
qed

lemma roundtrip_bounds:
  assumes "mk_double False d = Fin x" and "0 < x"
  shows "round_mag d = x" and "0 < d" and "\<bar>x - d\<bar> \<le> d / 2 ^ 53 + 1 / 2 ^ 1075"
proof -
  show r: "round_mag d = x"
    using assms by (auto simp: mk_double_def Let_def split: if_splits)
  show dpos: "0 < d"
  proof (rule ccontr)
    assume "\<not> 0 < d"
    then have "round_mag d = 0" by (simp add: round_mag_def)
    with r assms(2) show False by simp
  qed
  show "\<bar>x - d\<bar> \<le> d / 2 ^ 53 + 1 / 2 ^ 1075"
    using round_mag_err_abs [OF dpos] r by simp
qed

lemma reciprocal_number:
  assumes "1 / 2 ^ 1000 \<le> r" and "r < 1"
  shows "js_div (Fin 1) (Fin r) = Fin (round_mag (1 / r))"
    and "mk_double False (round_mag (1 / r)) = Fin (round_mag (1 / r))"
    and "0 < round_mag (1 / r)"
proof -
  define a where "a = 1 / r"
  define t where "t = a / 2 ^ 53"
  have rpos: "0 < r" using assms(1) by (rule less_le_trans [rotated]) simp
  have a1: "1 \<le> a" using rpos assms(2) by (simp add: a_def pos_le_divide_eq)
  have "pow2 (- 1022) \<le> 1" using pow2_mono [of "- 1022" 0] by (simp add: pow2_def)
  then have lo: "pow2 (- 1022) \<le> a" using a1 by simp
  have up: "a \<le> 2 ^ 1000"
    using assms(1) rpos by (simp add: a_def field_simps)
  have e: "\<bar>round_mag a - a\<bar> \<le> t" unfolding t_def using lo by (rule round_mag_err)
  have "a / 2 ^ 53 \<le> a / 2" using a1 by (intro divide_left_mono) simp_all
  then have t: "t \<le> a / 2" by (simp add: t_def)
  have b1: "a / 2 \<le> round_mag a" using e t by linarith
  have b2: "round_mag a \<le> 2 * a" using e t a1 by linarith
  have pos: "0 < round_mag a" using b1 a1 by linarith
  have "round_mag a \<le> 2 * 2 ^ 1000" using b2 up by linarith
  also have "(2::rat) * 2 ^ 1000 < 2 ^ 1024" by simp
  finally have fin: "round_mag a < 2 ^ 1024" .
  then have "mk_double False a = Fin (round_mag a)" by (rule mk_double_False)
  then show "js_div (Fin 1) (Fin r) = Fin (round_mag (1 / r))"
    using rpos by (simp add: js_div_def a_def)
  have "round_mag (round_mag a) = round_mag a" using lo by (rule round_mag_idem)
  then show "mk_double False (round_mag (1 / r)) = Fin (round_mag (1 / r))"
    using fin mk_double_False [of "round_mag a"] by (simp add: a_def)
  show "0 < round_mag (1 / r)" using pos by (simp add: a_def)
qed

lemma not_roundtrip:
  assumes "0 < x" and "d / 2 ^ 53 + 1 / 2 ^ 1075 < \<bar>x - d\<bar>"
  shows "mk_double False d \<noteq> Fin x"
  using roundtrip_bounds(3) [OF _ assms(1), of d] assms(2) by auto

lemma shortest_from_next:
  assumes "k \<le> 17" and "u = 10 powi (e - int k + 1)" and "lo = of_int \<lfloor>x / u\<rfloor> * u"
    and "mk_double False lo \<noteq> Fin x" and "mk_double False (lo + u) \<noteq> Fin x"
    and "k' = Suc k"
  shows "shortest_from x e k = shortest_from x e k'"
  using assms by (subst shortest_from.simps) (simp add: Let_def)

lemma shortest_from_upper:
  assumes "k \<le> 17" and "u = 10 powi (e - int k + 1)" and "lo = of_int \<lfloor>x / u\<rfloor> * u"
    and "mk_double False lo \<noteq> Fin x" and "mk_double False (lo + u) = Fin x"
  shows "shortest_from x e k = lo + u"
  using assms by (subst shortest_from.simps) (simp add: Let_def)

lemma shortest_from_nearer_lower:
  assumes "k \<le> 17" and "u = 10 powi (e - int k + 1)" and "lo = of_int \<lfloor>x / u\<rfloor> * u"
    and "mk_double False lo = Fin x" and "mk_double False (lo + u) = Fin x"
    and "x - lo < lo + u - x"
  shows "shortest_from x e k = lo"
  using assms by (subst shortest_from.simps) (simp add: Let_def)

subsection \<open>The digits of the number format\<close>

lemma digit_char_zero:
  assumes "0 \<le> d" and "d < 10"
  shows "digit_char d = CHR ''0'' \<longleftrightarrow> d = 0"
proof -
  have "d \<in> {0, 1, 2, 3, 4, 5, 6, 7, 8, 9}" using assms by simp presburger
  then show ?thesis by (auto simp: digit_char_def)
qed

lemma fraction_text_two:
  assumes "0 \<le> m" and "m < 100"
  shows "fraction_text 2 m =
    (if m = 0 then []
     else if m mod 10 = 0 then [CHR ''.'', digit_char (m div 10)]
     else [CHR ''.'', digit_char (m div 10), digit_char (m mod 10)])"
proof (cases "m < 10")
  case True
  then have d: "decimal_digits m = [digit_char m]" by (subst decimal_digits.simps) simp
  have z: "digit_char 0 = CHR ''0''" by (simp add: digit_char_def)
  show ?thesis
    using True assms(1) digit_char_zero [of m]
    by (simp add: fraction_text_def d pad_left_def strip_trailing_zeros_def z)
next
  case False
  then have q: "0 < m div 10" "m div 10 < 10" using assms by simp_all
  then have "decimal_digits (m div 10) = [digit_char (m div 10)]"
    by (subst decimal_digits.simps) simp
  then have d: "decimal_digits m = [digit_char (m div 10), digit_char (m mod 10)]"
    using False by (subst decimal_digits.simps) simp
  have nz: "digit_char (m div 10) \<noteq> CHR ''0''" using q digit_char_zero [of "m div 10"] by simp
  have "m \<noteq> 0" using False by simp
  then show ?thesis
    using nz digit_char_zero [of "m mod 10"]
    by (simp add: fraction_text_def d pad_left_def strip_trailing_zeros_def)
qed

lemma toLocaleString_pos:
  assumes "0 < r"
  shows "toLocaleString_en_US 2 (Fin r) =
    group_thousands (decimal_digits (\<lfloor>shortest_value r * 100 + 1 / 2\<rfloor> div 100)) @
    fraction_text 2 (\<lfloor>shortest_value r * 100 + 1 / 2\<rfloor> mod 100)"
  using assms by (simp add: toLocaleString_en_US_def Let_def abs_of_pos not_less)

lemma hundredths_of_roundtrip:
  assumes "mk_double False d = Fin x" and "0 < x"
    and "of_int n - 1 / 2 + 1 / 10 ^ 6 \<le> x * 100" and "x * 100 \<le> of_int n + 1 / 2 - 1 / 10 ^ 6"
    and "x \<le> 10 ^ 7"
  shows "\<lfloor>d * 100 + 1 / 2\<rfloor> = n"
proof -
  note b = roundtrip_bounds [OF assms(1,2)]
  define t where "t = d / 2 ^ 53"
  define c :: rat where "c = 1 / 2 ^ 1075"
  have e: "\<bar>x - d\<bar> \<le> t + c" using b(3) by (simp add: t_def c_def)
  have c: "0 \<le> c" "c \<le> 1 / 400000000" by (simp_all add: c_def)
  have "d / 2 ^ 53 \<le> d / 2" using b(2) by (intro divide_left_mono) simp_all
  then have "t \<le> d / 2" by (simp add: t_def)
  then have "d \<le> 2 * x + 2" using e c by linarith
  moreover have "x \<le> 10000000" using assms(5) by simp
  ultimately have "d \<le> 20000002" by linarith
  then have "d / 2 ^ 53 \<le> 20000002 / 2 ^ 53" by (simp add: divide_right_mono)
  also have "\<dots> \<le> 1 / 400000000" by simp
  finally have t9: "t \<le> 1 / 400000000" by (simp add: t_def)
  have a3: "of_int n - 1 / 2 + 1 / 1000000 \<le> x * 100" using assms(3) by simp
  have a4: "x * 100 \<le> of_int n + 1 / 2 - 1 / 1000000" using assms(4) by simp
  have lo: "of_int n \<le> d * 100 + 1 / 2" using e t9 c a3 by linarith
  have hi: "d * 100 + 1 / 2 < of_int n + 1" using e t9 c a4 by linarith
  show ?thesis using lo hi by (simp add: floor_eq_iff)
qed

lemma odds_rendering_digits:
  assumes "1 / 2 ^ 1000 \<le> r" and "r < 1"
  shows "\<exists>x d n. js_div (Fin 1) (Fin r) = Fin x \<and> x = round_mag (1 / r) \<and>
      d = shortest_value x \<and> mk_double False d = Fin x \<and> n = \<lfloor>d * 100 + 1 / 2\<rfloor> \<and>
      probabilityToOdds (Fin r) =
        ''1 in '' @ group_thousands (decimal_digits (n div 100)) @
        (if n mod 100 = 0 then []
         else if n mod 10 = 0 then [CHR ''.'', digit_char (n mod 100 div 10)]
         else [CHR ''.'', digit_char (n mod 100 div 10), digit_char (n mod 10)])"
proof -
  note x = reciprocal_number [OF assms]
  let ?x = "round_mag (1 / r)"
  let ?d = "shortest_value ?x"
  let ?n = "\<lfloor>?d * 100 + 1 / 2\<rfloor>"
  have rpos: "0 < r" using assms(1) by (rule less_le_trans [rotated]) simp
  have rt: "mk_double False ?d = Fin ?x" using x(2) by (rule shortest_value_roundtrip)
  have "probabilityToOdds (Fin r) = ''1 in '' @ toLocaleString_en_US 2 (Fin ?x)"
    using rpos assms(2) x(1) by (simp add: probabilityToOdds_def js_strict_eq_def)
  then have tx: "probabilityToOdds (Fin r) =
      ''1 in '' @ group_thousands (decimal_digits (?n div 100)) @ fraction_text 2 (?n mod 100)"
    by (simp only: toLocaleString_pos [OF x(3)])
  have "fraction_text 2 (?n mod 100) =
      (if ?n mod 100 = 0 then []
       else if ?n mod 100 mod 10 = 0 then [CHR ''.'', digit_char (?n mod 100 div 10)]
       else [CHR ''.'', digit_char (?n mod 100 div 10), digit_char (?n mod 100 mod 10)])"
    by (rule fraction_text_two) simp_all
  moreover have "?n mod 100 mod 10 = ?n mod 10" by (simp add: mod_mod_cancel)
  ultimately have "probabilityToOdds (Fin r) =
        ''1 in '' @ group_thousands (decimal_digits (?n div 100)) @
        (if ?n mod 100 = 0 then []
         else if ?n mod 10 = 0 then [CHR ''.'', digit_char (?n mod 100 div 10)]
         else [CHR ''.'', digit_char (?n mod 100 div 10), digit_char (?n mod 10)])"
    using tx by (simp only:)
  with rt x(1) show ?thesis by blast
qed

subsection \<open>Worked values of the number format\<close>

text \<open>
  The odds of ten hits on ten picks, and the quotient \<open>1 / (1 / 4)\<close>. Then two Numbers whose
  shortest decimal and exact value round differently: the Number nearest to 1.005 lies below
  1.005 and prints as 1.01, and \<open>2^70 = 1180591620717411303424\<close> prints its seventeen shortest
  digits followed by zeros.
\<close>

lemma number_odds_10_10:
  "mk_double False (4784438506792357 / 536870912) = Fin (4784438506792357 / 536870912)"
  using mk_double_nearest [where E = 23 and n = 4784438506792357
      and a = "4784438506792357 / 536870912" and neg = False and u = "1 / 2 ^ 29"]
  by (simp add: pow2_def power_int_minus)

lemma toLocaleString_odds:
  "toLocaleString_en_US 2 (Fin (4784438506792357 / 536870912)) = ''8,911,711.18''"
proof -
  let ?x = "4784438506792357 / 536870912 :: rat"
  have rt: "mk_double False (shortest_value ?x) = Fin ?x"
    using number_odds_10_10 by (rule shortest_value_roundtrip)
  have n: "\<lfloor>shortest_value ?x * 100 + 1 / 2\<rfloor> = 891171118"
    using rt by (rule hundredths_of_roundtrip) simp_all
  have "toLocaleString_en_US 2 (Fin ?x) =
      group_thousands (decimal_digits (891171118 div 100)) @ fraction_text 2 (891171118 mod 100)"
    using toLocaleString_pos [of ?x] by (simp add: n)
  also have "\<dots> = ''8,911,711.18''"
    by (simp add: fraction_text_def pad_left_def strip_trailing_zeros_def decimal_digits.simps
        digit_char_def group_thousands.simps)
  finally show ?thesis .
qed

lemma probabilityToOdds_10_10:
  "probabilityToOdds (Fin (8478491080973117 / 75557863725914323419136)) = ''1 in 8,911,711.18''"
  by (simp add: probabilityToOdds_def js_strict_eq_def odds_10_10 toLocaleString_odds)

lemma toLocaleString_4: "toLocaleString_en_US 2 (Fin 4) = ''4''"
proof -
  have "round_mag (of_int 4) = of_int 4" by (rule round_mag_int) simp_all
  then have four: "mk_double False 4 = Fin 4" by (simp add: mk_double_def)
  then have rt: "mk_double False (shortest_value 4) = Fin 4" by (rule shortest_value_roundtrip)
  have n: "\<lfloor>shortest_value 4 * 100 + 1 / 2\<rfloor> = 400"
    using rt by (rule hundredths_of_roundtrip) simp_all
  have "toLocaleString_en_US 2 (Fin 4) =
      group_thousands (decimal_digits (400 div 100)) @ fraction_text 2 (400 mod 100)"
    using toLocaleString_pos [of 4] by (simp add: n)
  also have "\<dots> = ''4''"
    by (simp add: fraction_text_def pad_left_def strip_trailing_zeros_def decimal_digits.simps
        digit_char_def group_thousands.simps)
  finally show ?thesis .
qed

lemma odds_quarter: "js_div (Fin 1) (Fin (1 / 4)) = Fin 4"
proof -
  have "round_mag (of_int 4) = of_int 4" by (rule round_mag_int) simp_all
  then show ?thesis by (simp add: js_div_def mk_double_def)
qed

lemma number_1_005:
  "mk_double False (1005 / 1000) = Fin (1131529406376837 / 1125899906842624)"
  using mk_double_nearest [where E = 0 and n = 4526117625507348
      and a = "1005 / 1000" and neg = False and u = "1 / 2 ^ 52"]
  by (simp add: pow2_def power_int_minus)

lemma odds_1_005:
  "js_div (Fin 1) (Fin (4481193659075121 / 4503599627370496))
     = Fin (1131529406376837 / 1125899906842624)"
  using mk_double_nearest [where E = 0 and n = 4526117625507348
      and a = "4503599627370496 / 4481193659075121" and neg = False and u = "1 / 2 ^ 52"]
  by (simp add: js_div_def pow2_def power_int_minus)

lemma shortest_value_1_005:
  "shortest_value (1131529406376837 / 1125899906842624) = 1005 / 1000"
proof -
  let ?x = "1131529406376837 / 1125899906842624 :: rat"
  have e: "decimal_exponent ?x = 0"
    proof -
    have "\<lfloor>?x\<rfloor> = 1" by (simp add: floor_eq_iff)
    then show ?thesis by (simp add: decimal_exponent_def decimal_digits.simps)
  qed
  have "shortest_from ?x 0 1 = shortest_from ?x 0 2"
    by (rule shortest_from_next [where u = 1 and lo = 1]) (simp_all add: not_roundtrip floor_eq_iff)
  also have "\<dots> = shortest_from ?x 0 3"
    by (rule shortest_from_next [where u = "1 / 10" and lo = 1]) (simp_all add: not_roundtrip floor_eq_iff)
  also have "\<dots> = shortest_from ?x 0 4"
    by (rule shortest_from_next [where u = "1 / 100" and lo = 1]) (simp_all add: not_roundtrip floor_eq_iff)
  also have "\<dots> = 1004 / 1000 + 1 / 1000"
    by (rule shortest_from_upper [where u = "1 / 1000" and lo = "1004 / 1000"])
      (simp_all add: not_roundtrip floor_eq_iff number_1_005 [simplified])
  finally show ?thesis by (simp add: shortest_value_def e)
qed

lemma toLocaleString_1_005:
  "toLocaleString_en_US 2 (Fin (1131529406376837 / 1125899906842624)) = ''1.01''"
proof -
  let ?x = "1131529406376837 / 1125899906842624 :: rat"
  have n: "\<lfloor>shortest_value ?x * 100 + 1 / 2\<rfloor> = 101"
    by (simp add: shortest_value_1_005 floor_eq_iff)
  have "toLocaleString_en_US 2 (Fin ?x) =
      group_thousands (decimal_digits (101 div 100)) @ fraction_text 2 (101 mod 100)"
    using toLocaleString_pos [of ?x] by (simp add: n)
  also have "\<dots> = ''1.01''"
    by (simp add: fraction_text_two decimal_digits.simps digit_char_def group_thousands.simps)
  finally show ?thesis .
qed

lemma probabilityToOdds_1_005:
  "probabilityToOdds (Fin (4481193659075121 / 4503599627370496)) = ''1 in 1.01''"
  by (simp add: probabilityToOdds_def js_strict_eq_def odds_1_005 toLocaleString_1_005)

lemma number_2_70_lower:
  "mk_double False 1180591620717411300000 = Fin 1180591620717411303424"
  using mk_double_nearest [where E = 69 and n = 9007199254740992
      and a = 1180591620717411300000 and neg = False and u = "2 ^ 17"]
  by (simp add: pow2_def)

lemma number_2_70_upper:
  "mk_double False 1180591620717411400000 = Fin 1180591620717411303424"
  using mk_double_nearest [where E = 70 and n = 4503599627370496
      and a = 1180591620717411400000 and neg = False and u = "2 ^ 18"]
  by (simp add: pow2_def)

lemma odds_2_70:
  "js_div (Fin 1) (Fin (1 / 1180591620717411303424)) = Fin 1180591620717411303424"
  using mk_double_nearest [where E = 70 and n = 4503599627370496
      and a = 1180591620717411303424 and neg = False and u = "2 ^ 18"]
  by (simp add: js_div_def pow2_def)

lemma shortest_value_2_70:
  "shortest_value 1180591620717411303424 = 1180591620717411300000"
proof -
  let ?x = "1180591620717411303424 :: rat"
  have e: "decimal_exponent ?x = 21"
    by (simp add: decimal_exponent_def decimal_digits.simps)
  have "shortest_from ?x 21 1 = shortest_from ?x 21 2"
    by (rule shortest_from_next [where u = 1000000000000000000000 and lo = 1000000000000000000000])
      (simp_all add: not_roundtrip floor_eq_iff)
  also have "\<dots> = shortest_from ?x 21 3"
    by (rule shortest_from_next [where u = 100000000000000000000 and lo = 1100000000000000000000])
      (simp_all add: not_roundtrip floor_eq_iff)
  also have "\<dots> = shortest_from ?x 21 4"
    by (rule shortest_from_next [where u = 10000000000000000000 and lo = 1180000000000000000000])
      (simp_all add: not_roundtrip floor_eq_iff)
  also have "\<dots> = shortest_from ?x 21 5"
    by (rule shortest_from_next [where u = 1000000000000000000 and lo = 1180000000000000000000])
      (simp_all add: not_roundtrip floor_eq_iff)
  also have "\<dots> = shortest_from ?x 21 6"
    by (rule shortest_from_next [where u = 100000000000000000 and lo = 1180500000000000000000])
      (simp_all add: not_roundtrip floor_eq_iff)
  also have "\<dots> = shortest_from ?x 21 7"
    by (rule shortest_from_next [where u = 10000000000000000 and lo = 1180590000000000000000])
      (simp_all add: not_roundtrip floor_eq_iff)
  also have "\<dots> = shortest_from ?x 21 8"
    by (rule shortest_from_next [where u = 1000000000000000 and lo = 1180591000000000000000])
      (simp_all add: not_roundtrip floor_eq_iff)
  also have "\<dots> = shortest_from ?x 21 9"
    by (rule shortest_from_next [where u = 100000000000000 and lo = 1180591600000000000000])
      (simp_all add: not_roundtrip floor_eq_iff)
  also have "\<dots> = shortest_from ?x 21 10"
    by (rule shortest_from_next [where u = 10000000000000 and lo = 1180591620000000000000])
      (simp_all add: not_roundtrip floor_eq_iff)
  also have "\<dots> = shortest_from ?x 21 11"
    by (rule shortest_from_next [where u = 1000000000000 and lo = 1180591620000000000000])
      (simp_all add: not_roundtrip floor_eq_iff)
  also have "\<dots> = shortest_from ?x 21 12"
    by (rule shortest_from_next [where u = 100000000000 and lo = 1180591620700000000000])
      (simp_all add: not_roundtrip floor_eq_iff)
  also have "\<dots> = shortest_from ?x 21 13"
    by (rule shortest_from_next [where u = 10000000000 and lo = 1180591620710000000000])
      (simp_all add: not_roundtrip floor_eq_iff)
  also have "\<dots> = shortest_from ?x 21 14"
    by (rule shortest_from_next [where u = 1000000000 and lo = 1180591620717000000000])
      (simp_all add: not_roundtrip floor_eq_iff)
  also have "\<dots> = shortest_from ?x 21 15"
    by (rule shortest_from_next [where u = 100000000 and lo = 1180591620717400000000])
      (simp_all add: not_roundtrip floor_eq_iff)
  also have "\<dots> = shortest_from ?x 21 16"
    by (rule shortest_from_next [where u = 10000000 and lo = 1180591620717410000000])
      (simp_all add: not_roundtrip floor_eq_iff)
  also have "\<dots> = shortest_from ?x 21 17"
    by (rule shortest_from_next [where u = 1000000 and lo = 1180591620717411000000])
      (simp_all add: not_roundtrip floor_eq_iff)
  also have "\<dots> = 1180591620717411300000"
    by (rule shortest_from_nearer_lower [where u = 100000])
      (simp_all add: floor_eq_iff number_2_70_lower number_2_70_upper)
  finally show ?thesis by (simp add: shortest_value_def e)
qed

lemma toLocaleString_2_70:
  "toLocaleString_en_US 2 (Fin 1180591620717411303424) = ''1,180,591,620,717,411,300,000''"
proof -
  have n: "\<lfloor>shortest_value 1180591620717411303424 * 100 + 1 / 2\<rfloor> = 118059162071741130000000"
    by (simp add: shortest_value_2_70 floor_eq_iff)
  have "toLocaleString_en_US 2 (Fin 1180591620717411303424) =
      group_thousands (decimal_digits (118059162071741130000000 div 100)) @
      fraction_text 2 (118059162071741130000000 mod 100)"
    using toLocaleString_pos [of 1180591620717411303424] by (simp add: n)
  also have "\<dots> = ''1,180,591,620,717,411,300,000''"
    by (simp add: fraction_text_two decimal_digits.simps digit_char_def group_thousands.simps)
  finally show ?thesis .
qed

lemma probabilityToOdds_2_70:
  "probabilityToOdds (Fin (1 / 1180591620717411303424)) = ''1 in 1,180,591,620,717,411,300,000''"
  by (simp add: probabilityToOdds_def js_strict_eq_def odds_2_70 toLocaleString_2_70)

subsection \<open>The descriptor\<close>

text \<open>
  C6, as amended. \<open>probabilityToOdds(p)\<close> returns \<open>impossible\<close> when \<open>p\<close> is 0 (either zero),
  \<open>1 in 1\<close> when \<open>p\<close> is 1, and otherwise \<open>1 in X\<close> where \<open>X\<close> is the Number \<open>1 / p\<close> in the
  en-US format with at most two fraction digits. For a probability \<open>p\<close> from \<open>2^-1000\<close> up to 1
  (excluded) the quotient is the finite Number \<open>x\<close> nearest to \<open>1 / p\<close>, and \<open>X\<close> is read off \<open>n\<close>,
  the hundredths nearest to the shortest decimal \<open>d\<close> that converts back to \<open>x\<close> (a tie goes
  up): the integer part \<open>n div 100\<close> in groups of three, then nothing when \<open>n mod 100\<close> is 0,
  else a point, the tens digit of \<open>n mod 100\<close> and, unless it is 0, the units digit. For
  \<open>p = calculateProbability(10, 10)\<close>, the Number nearest to 184756 / 1646492110120, the
  descriptor is \<open>1 in 8,911,711.18\<close>.
\<close>

theorem probabilityToOdds_descriptor:
  "(p = Fin 0 \<or> p = NegZero \<longrightarrow> probabilityToOdds p = ''impossible'') \<and>
   (p = Fin 1 \<longrightarrow> probabilityToOdds p = ''1 in 1'') \<and>
   (\<not> js_strict_eq p (Fin 0) \<and> \<not> js_strict_eq p (Fin 1) \<longrightarrow>
      probabilityToOdds p = ''1 in '' @ toLocaleString_en_US 2 (js_div (Fin 1) p)) \<and>
   (1 / 2 ^ 1000 \<le> r \<and> r < 1 \<longrightarrow>
      (\<exists>x d n. js_div (Fin 1) (Fin r) = Fin x \<and> x = round_mag (1 / r) \<and>
         d = shortest_value x \<and> mk_double False d = Fin x \<and> n = \<lfloor>d * 100 + 1 / 2\<rfloor> \<and>
         probabilityToOdds (Fin r) =
           ''1 in '' @ group_thousands (decimal_digits (n div 100)) @
           (if n mod 100 = 0 then []
            else if n mod 10 = 0 then [CHR ''.'', digit_char (n mod 100 div 10)]
            else [CHR ''.'', digit_char (n mod 100 div 10), digit_char (n mod 10)]))) \<and>
   calculateProbability 10 10 = Inr (Fin (8478491080973117 / 75557863725914323419136)) \<and>
   probabilityToOdds (Fin (8478491080973117 / 75557863725914323419136)) = ''1 in 8,911,711.18''"
proof (intro conjI impI)
  assume "p = Fin 0 \<or> p = NegZero"
  then show "probabilityToOdds p = ''impossible''"
    by (auto simp: probabilityToOdds_def js_strict_eq_def)
next
  assume "p = Fin 1"
  then show "probabilityToOdds p = ''1 in 1''"
    by (simp add: probabilityToOdds_def js_strict_eq_def)
next
  assume "\<not> js_strict_eq p (Fin 0) \<and> \<not> js_strict_eq p (Fin 1)"
  then show "probabilityToOdds p = ''1 in '' @ toLocaleString_en_US 2 (js_div (Fin 1) p)"
    by (simp add: probabilityToOdds_def)
next
  assume "1 / 2 ^ 1000 \<le> r \<and> r < 1"
  then have "1 / 2 ^ 1000 \<le> r" and "r < 1" by (rule conjunct1, rule conjunct2)
  then show "\<exists>x d n. js_div (Fin 1) (Fin r) = Fin x \<and> x = round_mag (1 / r) \<and>
         d = shortest_value x \<and> mk_double False d = Fin x \<and> n = \<lfloor>d * 100 + 1 / 2\<rfloor> \<and>
         probabilityToOdds (Fin r) =
           ''1 in '' @ group_thousands (decimal_digits (n div 100)) @
           (if n mod 100 = 0 then []
            else if n mod 10 = 0 then [CHR ''.'', digit_char (n mod 100 div 10)]
            else [CHR ''.'', digit_char (n mod 100 div 10), digit_char (n mod 10)])"
    by (rule odds_rendering_digits)
next
  show "calculateProbability 10 10 = Inr (Fin (8478491080973117 / 75557863725914323419136))"
    by (rule calculateProbability_10_10)
next
  show "probabilityToOdds (Fin (8478491080973117 / 75557863725914323419136)) = ''1 in 8,911,711.18''"
    by (rule probabilityToOdds_10_10)
qed

theorem probabilityToOdds_descriptor_witness:
  "probabilityToOdds (Fin 0) = ''impossible'' \<and> probabilityToOdds NegZero = ''impossible'' \<and>
   probabilityToOdds (Fin 1) = ''1 in 1'' \<and>
   probabilityToOdds (Fin (1 / 4)) = ''1 in '' @ toLocaleString_en_US 2 (js_div (Fin 1) (Fin (1 / 4))) \<and>
   js_div (Fin 1) (Fin (1 / 4)) = Fin 4 \<and>
   probabilityToOdds (Fin (1 / 4)) = ''1 in 4''"
proof -
  have 0: "probabilityToOdds (Fin 0) = ''impossible''"
    using probabilityToOdds_descriptor [of "Fin 0" 0, THEN conjunct1] by simp
  have 1: "probabilityToOdds NegZero = ''impossible''"
    using probabilityToOdds_descriptor [of NegZero 0, THEN conjunct1] by simp
  have 2: "probabilityToOdds (Fin 1) = ''1 in 1''"
    using probabilityToOdds_descriptor [of "Fin 1" 0, THEN conjunct2, THEN conjunct1] by simp
  note q = probabilityToOdds_descriptor [of "Fin (1 / 4)" "1 / 4", THEN conjunct2, THEN conjunct2]
  have "\<not> js_strict_eq (Fin (1 / 4)) (Fin 0) \<and> \<not> js_strict_eq (Fin (1 / 4)) (Fin 1)"
    by (simp add: js_strict_eq_def)
  then have 3: "probabilityToOdds (Fin (1 / 4))
      = ''1 in '' @ toLocaleString_en_US 2 (js_div (Fin 1) (Fin (1 / 4)))"
    by (rule q [THEN conjunct1, THEN mp])
  have "1 / 2 ^ 1000 \<le> (1 / 4 :: rat) \<and> (1 / 4 :: rat) < 1" by simp
  then have "\<exists>x d n. js_div (Fin 1) (Fin (1 / 4)) = Fin x \<and> x = round_mag (1 / (1 / 4)) \<and>
         d = shortest_value x \<and> mk_double False d = Fin x \<and> n = \<lfloor>d * 100 + 1 / 2\<rfloor> \<and>
         probabilityToOdds (Fin (1 / 4)) =
           ''1 in '' @ group_thousands (decimal_digits (n div 100)) @
           (if n mod 100 = 0 then []
            else if n mod 10 = 0 then [CHR ''.'', digit_char (n mod 100 div 10)]
            else [CHR ''.'', digit_char (n mod 100 div 10), digit_char (n mod 10)])"
    by (rule q [THEN conjunct2, THEN conjunct1, THEN mp])
  then obtain x d n where h: "js_div (Fin 1) (Fin (1 / 4)) = Fin x"
      "mk_double False d = Fin x" "n = \<lfloor>d * 100 + 1 / 2\<rfloor>"
      "probabilityToOdds (Fin (1 / 4)) =
           ''1 in '' @ group_thousands (decimal_digits (n div 100)) @
           (if n mod 100 = 0 then []
            else if n mod 10 = 0 then [CHR ''.'', digit_char (n mod 100 div 10)]
            else [CHR ''.'', digit_char (n mod 100 div 10), digit_char (n mod 10)])"
    by (elim exE conjE)
  have x: "x = 4" using h(1) odds_quarter by simp
  have d: "mk_double False d = Fin 4" using h(2) by (simp only: x)
  have "\<lfloor>d * 100 + 1 / 2\<rfloor> = 400" using d by (rule hundredths_of_roundtrip) simp_all
  then have n: "n = 400" using h(3) by simp
  have 4: "probabilityToOdds (Fin (1 / 4)) = ''1 in 4''"
    using h(4) by (simp add: n decimal_digits.simps group_thousands.simps digit_char_def)
  from 0 1 2 3 4 h(1) x show ?thesis by simp
qed

text \<open>
  C6 as stated fails in its example: for ten hits on ten picks the descriptor is
  \<open>1 in 8,911,711.18\<close>, not \<open>1 in 89,097.68\<close>.
\<close>

theorem probabilityToOdds_example_counterexample:
  "calculateProbability 10 10 = Inr (Fin (8478491080973117 / 75557863725914323419136)) \<and>
   probabilityToOdds (Fin (8478491080973117 / 75557863725914323419136)) = ''1 in 8,911,711.18'' \<and>
   ''1 in 8,911,711.18'' \<noteq> ''1 in 89,097.68''"
  using calculateProbability_10_10 probabilityToOdds_10_10 by simp

end
